theory Spec2Isabelle
  imports Main "HOL-Library.Word"
begin

unbundle bit_operations_syntax

section \<open>Ring buffer\<close>

text \<open>
  The struct \<open>libconveyor::RingBuffer\<close> of
  \<^verbatim>\<open>include/libconveyor/detail/ring_buffer.h\<close>. The field \<open>size\<close> is called
  \<open>size_rb\<close> here, since \<open>size\<close> is a constant of HOL. A \<open>std::vector<char>\<close> is a
  \<open>char list\<close>, a \<open>size_t\<close> is a \<open>nat\<close>: under the invariant \<open>rb_inv\<close> below no
  subtraction of the source goes below zero, so the wrap-around of \<open>size_t\<close> never
  occurs.
\<close>

record RingBuffer =
  buffer :: "char list"
  capacity :: nat
  head :: nat
  tail :: nat
  size_rb :: nat

text \<open>The constructor \<open>RingBuffer(size_t cap)\<close>: a zero-filled vector of \<open>cap\<close> bytes.\<close>

definition RingBuffer_init :: "nat \<Rightarrow> RingBuffer" where
  "RingBuffer_init cap =
     \<lparr>buffer = replicate cap (CHR 0x00), capacity = cap, head = 0, tail = 0, size_rb = 0\<rparr>"

text \<open>
  \<open>std::memcpy(dst + d, src + s, n)\<close>: the bytes \<open>src[s..s+n)\<close> replace
  \<open>dst[d..d+n)\<close>. The call is defined in C++ only when both ranges lie inside their
  arrays, which is what \<open>memcpy_ok\<close> says.
\<close>

definition memcpy :: "char list \<Rightarrow> nat \<Rightarrow> char list \<Rightarrow> nat \<Rightarrow> nat \<Rightarrow> char list" where
  "memcpy dst d src s n = take d dst @ take n (drop s src) @ drop (d + n) dst"

definition memcpy_ok :: "char list \<Rightarrow> nat \<Rightarrow> char list \<Rightarrow> nat \<Rightarrow> nat \<Rightarrow> bool" where
  "memcpy_ok dst d src s n = (d + n \<le> length dst \<and> s + n \<le> length src)"

definition available_space :: "RingBuffer \<Rightarrow> nat" where
  "available_space rb = capacity rb - size_rb rb"

definition available_data :: "RingBuffer \<Rightarrow> nat" where
  "available_data rb = size_rb rb"

definition RingBuffer_empty :: "RingBuffer \<Rightarrow> bool" where
  "RingBuffer_empty rb = (size_rb rb = 0)"

definition RingBuffer_full :: "RingBuffer \<Rightarrow> bool" where
  "RingBuffer_full rb = (size_rb rb = capacity rb)"

definition RingBuffer_clear :: "RingBuffer \<Rightarrow> RingBuffer" where
  "RingBuffer_clear rb = rb\<lparr>size_rb := 0, head := 0, tail := 0\<rparr>"

text \<open>
  \<open>size_t write(const char* data, size_t len)\<close>: the pair \<open>(data, len)\<close> is the list
  \<open>data\<close>, with \<open>len = length data\<close>. The result is the buffer after the call and
  the returned count.
\<close>

definition RingBuffer_write :: "RingBuffer \<Rightarrow> char list \<Rightarrow> RingBuffer \<times> nat" where
  "RingBuffer_write rb data =
     (let len = length data in
      if len = 0 then (rb, 0)
      else
        let bytes_to_write = min len (capacity rb - size_rb rb) in
        if bytes_to_write = 0 then (rb, 0)
        else
          let first_chunk_len = min bytes_to_write (capacity rb - head rb);
              buf1 = memcpy (buffer rb) (head rb) data 0 first_chunk_len;
              buf2 = (if bytes_to_write > first_chunk_len
                      then memcpy buf1 0 data first_chunk_len (bytes_to_write - first_chunk_len)
                      else buf1)
          in (rb\<lparr>buffer := buf2,
                 head := (head rb + bytes_to_write) mod capacity rb,
                 size_rb := size_rb rb + bytes_to_write\<rparr>,
              bytes_to_write))"

text \<open>
  \<open>size_t read(char* data, size_t len)\<close>: the destination is \<open>None\<close> for
  \<open>nullptr\<close> (the bytes are dropped) and \<open>Some d\<close> for an array \<open>d\<close> of at least
  \<open>len\<close> bytes. The result is the buffer, the destination and the returned count.
\<close>

definition RingBuffer_read ::
  "RingBuffer \<Rightarrow> char list option \<Rightarrow> nat \<Rightarrow> RingBuffer \<times> char list option \<times> nat" where
  "RingBuffer_read rb data len =
     (if len = 0 then (rb, data, 0)
      else
        let bytes_to_read = min len (size_rb rb) in
        if bytes_to_read = 0 then (rb, data, 0)
        else
          let data' =
                (case data of
                   None \<Rightarrow> None
                 | Some d \<Rightarrow>
                     let first_chunk_len = min bytes_to_read (capacity rb - tail rb);
                         d1 = memcpy d 0 (buffer rb) (tail rb) first_chunk_len;
                         d2 = (if bytes_to_read > first_chunk_len
                               then memcpy d1 first_chunk_len (buffer rb) 0
                                      (bytes_to_read - first_chunk_len)
                               else d1)
                     in Some d2)
          in (rb\<lparr>tail := (tail rb + bytes_to_read) mod capacity rb,
                 size_rb := size_rb rb - bytes_to_read\<rparr>,
              data', bytes_to_read))"

text \<open>
  \<open>size_t peek_at(size_t absolute_ring_pos, char* dest, size_t len) const\<close>. The
  method is \<open>const\<close>; the buffer is returned all the same, so that a theorem can say
  that it is the one passed in.
\<close>

definition RingBuffer_peek_at ::
  "RingBuffer \<Rightarrow> nat \<Rightarrow> char list \<Rightarrow> nat \<Rightarrow> RingBuffer \<times> char list \<times> nat" where
  "RingBuffer_peek_at rb absolute_ring_pos dest len =
     (let offset = absolute_ring_pos mod capacity rb;
          first_chunk = min len (capacity rb - offset);
          d1 = memcpy dest 0 (buffer rb) offset first_chunk;
          d2 = (if len > first_chunk
                then memcpy d1 first_chunk (buffer rb) 0 (len - first_chunk)
                else d1)
      in (rb, d2, len))"

text \<open>
  The indices of \<open>buffer\<close> that the (at most two) \<open>memcpy\<close> calls of \<open>peek_at\<close>
  read, in the order in which they are read.
\<close>

definition peek_at_reads :: "RingBuffer \<Rightarrow> nat \<Rightarrow> nat \<Rightarrow> nat list" where
  "peek_at_reads rb absolute_ring_pos len =
     (let offset = absolute_ring_pos mod capacity rb;
          first_chunk = min len (capacity rb - offset)
      in [offset ..< offset + first_chunk] @
         (if len > first_chunk then [0 ..< len - first_chunk] else []))"

text \<open>\<open>void resize(size_t new_capacity)\<close>.\<close>

definition RingBuffer_resize :: "RingBuffer \<Rightarrow> nat \<Rightarrow> RingBuffer" where
  "RingBuffer_resize rb new_capacity =
     (if new_capacity \<le> capacity rb then rb
      else
        let new_buffer = replicate new_capacity (CHR 0x00);
            new_buffer' =
              (if size_rb rb > 0 then
                 (if head rb > tail rb
                  then memcpy new_buffer 0 (buffer rb) (tail rb) (size_rb rb)
                  else
                    let first_chunk = capacity rb - tail rb;
                        nb1 = memcpy new_buffer 0 (buffer rb) (tail rb) first_chunk
                    in memcpy nb1 first_chunk (buffer rb) 0 (head rb))
               else new_buffer)
        in rb\<lparr>buffer := new_buffer', capacity := new_capacity,
               head := size_rb rb, tail := 0\<rparr>)"

text \<open>The bounds on the counters alone.\<close>

definition rb_bounds :: "RingBuffer \<Rightarrow> bool" where
  "rb_bounds rb =
     (1 \<le> capacity rb \<and> size_rb rb \<le> capacity rb \<and>
      head rb < capacity rb \<and> tail rb < capacity rb)"

text \<open>
  The invariant of the data model: the vector has \<open>capacity\<close> bytes, \<open>size \<le> capacity\<close>,
  both indices are below \<open>capacity\<close>, and the \<open>size\<close> logical bytes start at \<open>tail\<close>
  and end where \<open>head\<close>, the next write position, stands.
\<close>

definition rb_inv :: "RingBuffer \<Rightarrow> bool" where
  "rb_inv rb =
     (1 \<le> capacity rb \<and> length (buffer rb) = capacity rb \<and>
      size_rb rb \<le> capacity rb \<and> head rb < capacity rb \<and> tail rb < capacity rb \<and>
      head rb = (tail rb + size_rb rb) mod capacity rb)"

text \<open>The logical contents: the bytes at the indices \<open>[tail, tail + size) mod capacity\<close>.\<close>

definition contents :: "RingBuffer \<Rightarrow> char list" where
  "contents rb =
     map (\<lambda>i. buffer rb ! ((tail rb + i) mod capacity rb)) [0 ..< size_rb rb]"


section \<open>The engine\<close>

text \<open>
  The engine source is \<^verbatim>\<open>src/unnamed/part_004\<close> (lines 1 to 426), with the interface
  of \<^verbatim>\<open>src/unnamed/part_000\<close>. It carries its own copy of \<open>RingBuffer\<close> (lines 18 to
  67), without \<open>resize\<close> and \<open>peek_at\<close>: \<open>write\<close>, \<open>clear\<close>, \<open>empty\<close>,
  \<open>available_space\<close> and \<open>available_data\<close> are the ones above, word for word, and
  \<open>read\<close> (lines 42 to 55) lacks the null check, so its destination is an array.
\<close>

definition conveyor_RingBuffer_read ::
  "RingBuffer \<Rightarrow> char list \<Rightarrow> nat \<Rightarrow> RingBuffer \<times> char list \<times> nat" where
  "conveyor_RingBuffer_read rb data len =
     (if len = 0 then (rb, data, 0)
      else
        let bytes_to_read = min len (size_rb rb) in
        if bytes_to_read = 0 then (rb, data, 0)
        else
          let first_chunk_len = min bytes_to_read (capacity rb - tail rb);
              d1 = memcpy data 0 (buffer rb) (tail rb) first_chunk_len;
              d2 = (if bytes_to_read > first_chunk_len
                    then memcpy d1 first_chunk_len (buffer rb) 0 (bytes_to_read - first_chunk_len)
                    else d1)
          in (rb\<lparr>tail := (tail rb + bytes_to_read) mod capacity rb,
                 size_rb := size_rb rb - bytes_to_read\<rparr>,
              d2, bytes_to_read))"

subsection \<open>Constants of the C library\<close>

text \<open>
  The values of \<^verbatim>\<open><fcntl.h>\<close>, \<^verbatim>\<open><stdio.h>\<close> and \<^verbatim>\<open><errno.h>\<close> on Linux; the
  repository's notes quote \<open>O_RDONLY = 0\<close>, \<open>O_WRONLY = 1\<close> and \<open>O_RDWR = 2\<close>. The fallback
  \<open>O_ACCMODE = (O_RDONLY | O_WRONLY | O_RDWR)\<close> of lines 10 to 12 is the same value 3.
  \<open>flags\<close> is an \<open>int\<close>, a 32-bit word here.

  \<open>off_t\<close> is a signed integer of 64 bits. The two positions of that type,
  \<open>current_file_offset\<close> and \<open>current_pos_in_storage\<close>, are integers here, and every
  addition to them is reduced by \<open>to_off_t\<close> to the value that the 64 bits hold: the
  sum modulo \<open>2 ^ 64\<close>, read as a signed number. A position that a callback returns is
  taken as it is, the callback's result being an \<open>off_t\<close> already. What is added up in
  \<open>bytes_written_to_buffer\<close> and \<open>bytes_read_total\<close>, of type \<open>ssize_t\<close>, is bounded
  by the length of the caller's array, which is below \<open>2 ^ 63\<close>.
\<close>

definition to_off_t :: "int \<Rightarrow> int" where
  "to_off_t x = (x + 2 ^ 63) mod 2 ^ 64 - 2 ^ 63"

definition O_RDONLY :: "32 word" where "O_RDONLY = 0"
definition O_WRONLY :: "32 word" where "O_WRONLY = 1"
definition O_RDWR :: "32 word" where "O_RDWR = 2"
definition O_ACCMODE :: "32 word" where "O_ACCMODE = 3"
definition O_APPEND :: "32 word" where "O_APPEND = 1024"

definition SEEK_SET :: int where "SEEK_SET = 0"
definition SEEK_CUR :: int where "SEEK_CUR = 1"
definition SEEK_END :: int where "SEEK_END = 2"

definition EIO :: int where "EIO = 5"
definition EBADF :: int where "EBADF = 9"

definition LIBCONVEYOR_ERROR :: int where "LIBCONVEYOR_ERROR = - 1"

subsection \<open>State\<close>

text \<open>
  \<open>storage_operations_t\<close>: the three callbacks, as functions on the state \<open>'s\<close> of the
  backing store. Each takes the handle and returns its result with the new state of the
  store; \<open>write\<close> takes the \<open>count\<close> bytes of its array as a list, \<open>read\<close> takes
  its array and \<open>count\<close> and also returns the array as it leaves it. The fields
  \<open>write\<close>, \<open>read\<close> and \<open>lseek\<close> carry the prefix \<open>ops_\<close>, \<open>write\<close> being a
  keyword of Isabelle.
\<close>

record 's storage_operations_t =
  ops_write :: "'s \<Rightarrow> int \<Rightarrow> char list \<Rightarrow> int \<times> 's"
  ops_read :: "'s \<Rightarrow> int \<Rightarrow> char list \<Rightarrow> nat \<Rightarrow> (int \<times> char list) \<times> 's"
  ops_lseek :: "'s \<Rightarrow> int \<Rightarrow> int \<Rightarrow> int \<Rightarrow> int \<times> 's"

text \<open>
  Where each worker thread stands. The write worker is at its wait (line 108), or has
  released the mutex with the drained bytes in \<open>temp_flush_buffer\<close> and not yet called
  the store (line 130), or has the result of \<open>ops.write\<close> and not yet taken the mutex
  again (line 138), or has left its loop. The read worker is at its wait (line 155), or
  has released the mutex before \<open>ops.read\<close> (line 176), or has the result of
  \<open>ops.read\<close> (line 178), or has left its loop.
\<close>

datatype write_worker = WW_None | WW_Wait | WW_Store "char list" | WW_Relock int | WW_Exit

datatype read_worker = RW_None | RW_Wait | RW_Load nat | RW_Relock int "char list" | RW_Exit

text \<open>
  \<open>ConveyorImpl\<close> (lines 71 to 100). Mutexes and condition variables are not data:
  a step function below is one critical section, or one call of the store made with
  no mutex held.
\<close>

record 's ConveyorImpl =
  handle :: int
  flags :: "32 word"
  ops :: "'s storage_operations_t"
  write_buffer_enabled :: bool
  write_buffer :: RingBuffer
  write_worker_thread :: write_worker
  write_worker_stop_flag :: bool
  write_buffer_needs_flush :: bool
  current_pos_in_storage :: int
  read_buffer_enabled :: bool
  read_buffer :: RingBuffer
  read_worker_thread :: read_worker
  read_worker_stop_flag :: bool
  read_buffer_stale :: bool
  read_worker_needs_fill :: bool
  read_eof_flag :: bool
  current_file_offset :: int

text \<open>
  What the caller and the engine share: the object behind the pointer \<open>conv\<close>
  (\<open>None\<close> for a null pointer), the backing store, and the caller's \<open>errno\<close>.
\<close>

record 's World =
  conv :: "'s ConveyorImpl option"
  storage :: 's
  errno :: int

text \<open>
  How a call of the interface ends for its caller: it returns a value, or it blocks at
  one of the three waits of the interface: in \<open>conveyor_write\<close> (line 286, with the
  bytes not yet copied and \<open>bytes_written_to_buffer\<close>), in \<open>conveyor_flush\<close>
  (line 418) or in \<open>conveyor_read\<close> (line 341, with the caller's array,
  \<open>bytes_read_total\<close> and \<open>remaining_count\<close>).
\<close>

datatype call_state =
    Returned int
  | Waiting_write "char list" int
  | Waiting_flush
  | Waiting_read "char list" int nat

subsection \<open>\<open>conveyor_create\<close> (lines 198 to 232)\<close>

definition conveyor_create ::
  "int \<Rightarrow> 32 word \<Rightarrow> 's storage_operations_t \<Rightarrow> nat \<Rightarrow> nat \<Rightarrow> 's ConveyorImpl" where
  "conveyor_create handle' flags' ops' write_buffer_size read_buffer_size =
     (let access_mode = flags' AND O_ACCMODE;
          read_enabled = (access_mode = O_RDONLY \<or> access_mode = O_RDWR);
          write_enabled = (access_mode = O_WRONLY \<or> access_mode = O_RDWR)
      in \<lparr>handle = handle', flags = flags', ops = ops',
          write_buffer_enabled = write_enabled,
          write_buffer = RingBuffer_init write_buffer_size,
          write_worker_thread = (if write_enabled then WW_Wait else WW_None),
          write_worker_stop_flag = False,
          write_buffer_needs_flush = False,
          current_pos_in_storage = 0,
          read_buffer_enabled = read_enabled,
          read_buffer = RingBuffer_init read_buffer_size,
          read_worker_thread = (if read_enabled then RW_Wait else RW_None),
          read_worker_stop_flag = False,
          read_buffer_stale = False,
          read_worker_needs_fill = False,
          read_eof_flag = False,
          current_file_offset = 0\<rparr>)"

subsection \<open>\<open>writeWorker\<close> (lines 102 to 147)\<close>

text \<open>
  One pass of the worker under the mutex, from the wait of line 108 to the unlock of
  line 130 (or back to the wait). \<open>None\<close>: the worker is not at its wait, or the
  predicate of the wait is false. \<open>temp_flush_buffer.resize(bytes_to_flush)\<close> is a
  vector of \<open>bytes_to_flush\<close> bytes, all of which the \<open>read\<close> of line 119 overwrites.
\<close>

definition writeWorker_locked :: "'s World \<Rightarrow> 's World option" where
  "writeWorker_locked w =
     (case conv w of
        None \<Rightarrow> None
      | Some c \<Rightarrow>
          if write_worker_thread c \<noteq> WW_Wait then None
          else if \<not> (available_data (write_buffer c) > 0 \<or> write_buffer_needs_flush c
                      \<or> write_worker_stop_flag c) then None
          else if write_worker_stop_flag c \<and> RingBuffer_empty (write_buffer c)
          then Some (w\<lparr>conv := Some (c\<lparr>write_worker_thread := WW_Exit\<rparr>)\<rparr>)
          else
            let bytes_to_flush = available_data (write_buffer c);
                r = conveyor_RingBuffer_read (write_buffer c)
                      (replicate bytes_to_flush (CHR 0x00)) bytes_to_flush;
                do_flush_now = write_buffer_needs_flush c
            in Some (w\<lparr>conv := Some
                 (c\<lparr>write_buffer := (if bytes_to_flush > 0 then fst r else write_buffer c),
                    write_buffer_needs_flush :=
                      (if do_flush_now then False else write_buffer_needs_flush c),
                    write_worker_thread :=
                      (if bytes_to_flush > 0 then WW_Store (fst (snd r)) else WW_Wait)\<rparr>)\<rparr>))"

text \<open>Lines 132 to 136, no mutex held: the seek of append mode, and \<open>ops.write\<close>.\<close>

definition writeWorker_store :: "'s World \<Rightarrow> 's World option" where
  "writeWorker_store w =
     (case conv w of
        None \<Rightarrow> None
      | Some c \<Rightarrow>
          (case write_worker_thread c of
             WW_Store temp_flush_buffer \<Rightarrow>
               let st1 = (if flags c AND O_APPEND \<noteq> 0
                          then snd (ops_lseek (ops c) (storage w) (handle c) 0 SEEK_END)
                          else storage w);
                   r = ops_write (ops c) st1 (handle c) temp_flush_buffer
               in Some (w\<lparr>conv := Some (c\<lparr>write_worker_thread := WW_Relock (fst r)\<rparr>),
                          storage := snd r\<rparr>)
           | _ \<Rightarrow> None))"

text \<open>Lines 138 to 142: the mutex is taken again and the position advanced.\<close>

definition writeWorker_relock :: "'s World \<Rightarrow> 's World option" where
  "writeWorker_relock w =
     (case conv w of
        None \<Rightarrow> None
      | Some c \<Rightarrow>
          (case write_worker_thread c of
             WW_Relock written_to_storage \<Rightarrow>
               Some (w\<lparr>conv := Some
                 (c\<lparr>current_pos_in_storage :=
                      (if written_to_storage > 0
                       then to_off_t (current_pos_in_storage c + written_to_storage)
                       else current_pos_in_storage c),
                    write_worker_thread := WW_Wait\<rparr>)\<rparr>)
           | _ \<Rightarrow> None))"

subsection \<open>\<open>readWorker\<close> (lines 149 to 193)\<close>

text \<open>
  One pass under the mutex, from the wait of line 155 to the unlock of line 176, or,
  with no free space, to the end of the loop body and back to the wait. The test of
  line 169 compares an \<open>off_t\<close> with the sum of an \<open>off_t\<close> and a \<open>size_t\<close>: both
  sides are converted to the unsigned type, so they are compared modulo \<open>2 ^ 64\<close>.
\<close>

definition readWorker_locked :: "'s World \<Rightarrow> 's World option" where
  "readWorker_locked w =
     (case conv w of
        None \<Rightarrow> None
      | Some c \<Rightarrow>
          if read_worker_thread c \<noteq> RW_Wait then None
          else if \<not> (available_space (read_buffer c) > 0 \<or> read_buffer_stale c
                      \<or> read_worker_stop_flag c \<or> read_worker_needs_fill c) then None
          else if read_worker_stop_flag c
          then Some (w\<lparr>conv := Some (c\<lparr>read_worker_thread := RW_Exit\<rparr>)\<rparr>)
          else
            let rb1 = (if read_buffer_stale c then RingBuffer_clear (read_buffer c)
                       else read_buffer c);
                c1 = c\<lparr>read_buffer := rb1, read_buffer_stale := False\<rparr>
            in if available_space rb1 > 0 \<and> \<not> read_worker_stop_flag c1
               then
                 let st1 = (if to_off_t (current_pos_in_storage c1)
                               \<noteq> to_off_t (current_file_offset c1 + int (available_data rb1))
                            then snd (ops_lseek (ops c1) (storage w) (handle c1)
                                        (current_pos_in_storage c1) SEEK_SET)
                            else storage w);
                     bytes_to_read_from_storage = available_space rb1
                 in Some (w\<lparr>conv := Some
                            (c1\<lparr>read_worker_thread := RW_Load bytes_to_read_from_storage\<rparr>),
                          storage := st1\<rparr>)
               else Some (w\<lparr>conv := Some (c1\<lparr>read_worker_needs_fill := False\<rparr>)\<rparr>))"

text \<open>
  Line 177, no mutex held: \<open>ops.read\<close> into \<open>temp_read_buffer\<close>, which line 174
  has resized to \<open>bytes_to_read_from_storage\<close> bytes. The vector is zero-filled here;
  in the source it keeps the bytes of earlier passes, which matter only to a callback
  that returns more than it stored.
\<close>

definition readWorker_load :: "'s World \<Rightarrow> 's World option" where
  "readWorker_load w =
     (case conv w of
        None \<Rightarrow> None
      | Some c \<Rightarrow>
          (case read_worker_thread c of
             RW_Load bytes_to_read_from_storage \<Rightarrow>
               let r = ops_read (ops c) (storage w) (handle c)
                         (replicate bytes_to_read_from_storage (CHR 0x00))
                         bytes_to_read_from_storage
               in Some (w\<lparr>conv := Some
                          (c\<lparr>read_worker_thread := RW_Relock (fst (fst r)) (snd (fst r))\<rparr>),
                        storage := snd r\<rparr>)
           | _ \<Rightarrow> None))"

text \<open>Lines 178 to 191: the mutex is taken again and the bytes appended.\<close>

definition readWorker_relock :: "'s World \<Rightarrow> 's World option" where
  "readWorker_relock w =
     (case conv w of
        None \<Rightarrow> None
      | Some c \<Rightarrow>
          (case read_worker_thread c of
             RW_Relock bytes_read_from_ops temp_read_buffer \<Rightarrow>
               let c1 =
                     (if bytes_read_from_ops > 0
                      then c\<lparr>read_buffer :=
                               fst (RingBuffer_write (read_buffer c)
                                      (take (nat bytes_read_from_ops) temp_read_buffer)),
                             current_pos_in_storage :=
                               to_off_t (current_pos_in_storage c + bytes_read_from_ops)\<rparr>
                      else if bytes_read_from_ops = 0 then c\<lparr>read_eof_flag := True\<rparr>
                      else c)
               in Some (w\<lparr>conv := Some
                          (c1\<lparr>read_worker_needs_fill := False,
                              read_worker_thread := RW_Wait\<rparr>)\<rparr>)
           | _ \<Rightarrow> None))"

subsection \<open>\<open>conveyor_write\<close> (lines 265 to 311)\<close>

text \<open>
  The loop of lines 285 to 301, entered at its head or, when the caller wakes up, at
  the wait of line 286: the two agree, since \<open>remaining_count\<close> is still positive
  there and a set stop flag leaves the loop either way. The loop stops at the wait when
  there is no space and the stop flag is clear.
\<close>

function write_loop ::
  "'s ConveyorImpl \<Rightarrow> char list \<Rightarrow> int \<Rightarrow> call_state \<times> 's ConveyorImpl" where
  "write_loop c remaining bytes_written_to_buffer =
     (if remaining \<noteq> [] \<and> \<not> write_worker_stop_flag c then
        if \<not> (available_space (write_buffer c) > 0 \<or> write_worker_stop_flag c)
        then (Waiting_write remaining bytes_written_to_buffer, c)
        else if write_worker_stop_flag c then (Returned bytes_written_to_buffer, c)
        else
          let r = RingBuffer_write (write_buffer c) remaining;
              written_this_iter = snd r
          in write_loop
               (c\<lparr>write_buffer := fst r,
                  current_file_offset :=
                    to_off_t (current_file_offset c + int written_this_iter)\<rparr>)
               (drop written_this_iter remaining)
               (bytes_written_to_buffer + int written_this_iter)
      else (Returned bytes_written_to_buffer, c))"
  by pat_completeness auto
termination
proof (relation "measure (\<lambda>(c, remaining, b). length remaining)", goal_cases)
  case 1
  show ?case by simp
next
  case (2 c remaining bytes_written_to_buffer x xa)
  have "snd (RingBuffer_write (write_buffer c) remaining)
        = min (length remaining) (capacity (write_buffer c) - size_rb (write_buffer c))"
    by (simp add: RingBuffer_write_def Let_def)
  moreover have "0 < length remaining" "0 < capacity (write_buffer c) - size_rb (write_buffer c)"
    using 2 by (simp_all add: available_space_def)
  moreover have "xa = snd (RingBuffer_write (write_buffer c) remaining)" using 2 by simp
  ultimately show ?case by simp
qed

text \<open>Lines 304 to 310, once the loop is left.\<close>

definition write_finish :: "'s ConveyorImpl \<Rightarrow> 's ConveyorImpl" where
  "write_finish c =
     (if read_buffer_enabled c \<and> flags c AND O_RDWR \<noteq> 0
      then c\<lparr>read_buffer := RingBuffer_clear (read_buffer c), read_buffer_stale := True\<rparr>
      else c)"

definition write_from ::
  "'s World \<Rightarrow> 's ConveyorImpl \<Rightarrow> char list \<Rightarrow> int \<Rightarrow> call_state \<times> 's World" where
  "write_from w c remaining bytes_written_to_buffer =
     (case write_loop c remaining bytes_written_to_buffer of
        (Returned n, c') \<Rightarrow> (Returned n, w\<lparr>conv := Some (write_finish c')\<rparr>)
      | (st, c') \<Rightarrow> (st, w\<lparr>conv := Some c'\<rparr>))"

definition conveyor_write :: "'s World \<Rightarrow> char list \<Rightarrow> call_state \<times> 's World" where
  "conveyor_write w buf =
     (case conv w of
        None \<Rightarrow> (Returned LIBCONVEYOR_ERROR, w\<lparr>errno := EBADF\<rparr>)
      | Some c \<Rightarrow>
          if \<not> write_buffer_enabled c
          then (Returned LIBCONVEYOR_ERROR, w\<lparr>errno := EBADF\<rparr>)
          else write_from w c buf 0)"

text \<open>The caller blocked in \<open>conveyor_write\<close> goes on when it is woken up.\<close>

definition conveyor_write_resume ::
  "'s World \<Rightarrow> char list \<Rightarrow> int \<Rightarrow> call_state \<times> 's World" where
  "conveyor_write_resume w remaining bytes_written_to_buffer =
     (case conv w of
        None \<Rightarrow> (Waiting_write remaining bytes_written_to_buffer, w)
      | Some c \<Rightarrow> write_from w c remaining bytes_written_to_buffer)"

subsection \<open>\<open>conveyor_flush\<close> (lines 399 to 426)\<close>

definition conveyor_flush :: "'s World \<Rightarrow> call_state \<times> 's World" where
  "conveyor_flush w =
     (case conv w of
        None \<Rightarrow> (Returned LIBCONVEYOR_ERROR, w\<lparr>errno := EBADF\<rparr>)
      | Some c \<Rightarrow>
          if \<not> write_buffer_enabled c then (Returned 0, w)
          else if available_data (write_buffer c) > 0
          then
            let c1 = c\<lparr>write_buffer_needs_flush := True\<rparr>
            in if RingBuffer_empty (write_buffer c1) \<or> write_worker_stop_flag c1
               then (Returned 0, w\<lparr>conv := Some (c1\<lparr>write_buffer_needs_flush := False\<rparr>)\<rparr>)
               else (Waiting_flush, w\<lparr>conv := Some c1\<rparr>)
          else (Returned 0, w\<lparr>conv := Some (c\<lparr>write_buffer_needs_flush := False\<rparr>)\<rparr>))"

text \<open>The caller blocked at line 418 goes on when the predicate of its wait holds.\<close>

definition conveyor_flush_resume :: "'s World \<Rightarrow> call_state \<times> 's World" where
  "conveyor_flush_resume w =
     (case conv w of
        None \<Rightarrow> (Waiting_flush, w)
      | Some c \<Rightarrow>
          if RingBuffer_empty (write_buffer c) \<or> write_worker_stop_flag c
          then (Returned 0, w\<lparr>conv := Some (c\<lparr>write_buffer_needs_flush := False\<rparr>)\<rparr>)
          else (Waiting_flush, w))"

subsection \<open>\<open>conveyor_lseek\<close> (lines 364 to 397)\<close>

definition conveyor_lseek :: "'s World \<Rightarrow> int \<Rightarrow> int \<Rightarrow> call_state \<times> 's World" where
  "conveyor_lseek w offset whence =
     (case conv w of
        None \<Rightarrow> (Returned LIBCONVEYOR_ERROR, w\<lparr>errno := EBADF\<rparr>)
      | Some c \<Rightarrow>
          let r = ops_lseek (ops c) (storage w) (handle c) offset whence;
              new_pos = fst r
          in if new_pos \<noteq> LIBCONVEYOR_ERROR
             then
               let c1 = (if read_buffer_enabled c
                         then c\<lparr>read_buffer := RingBuffer_clear (read_buffer c),
                                read_buffer_stale := True,
                                read_eof_flag := False\<rparr>
                         else c);
                   c2 = (if write_buffer_enabled c1
                         then c1\<lparr>write_buffer := RingBuffer_clear (write_buffer c1)\<rparr>
                         else c1)
               in (Returned new_pos,
                   w\<lparr>conv := Some (c2\<lparr>current_file_offset := new_pos,
                                       current_pos_in_storage := new_pos\<rparr>),
                     storage := snd r\<rparr>)
             else (Returned new_pos, w\<lparr>storage := snd r\<rparr>))"

subsection \<open>\<open>conveyor_read\<close> (lines 313 to 362)\<close>

text \<open>
  Lines 350 to 356: one transfer out of the read buffer. \<open>buf\<close> is the caller's
  array and \<open>current_buf_ptr\<close> is \<open>buf + bytes_read_total\<close>. The result is the
  engine, the array and \<open>read_this_iter\<close>.
\<close>

definition read_copy ::
  "'s ConveyorImpl \<Rightarrow> char list \<Rightarrow> int \<Rightarrow> nat \<Rightarrow> 's ConveyorImpl \<times> char list \<times> nat" where
  "read_copy c buf bytes_read_total remaining_count =
     (let bytes_to_read_this_iter = min remaining_count (available_data (read_buffer c));
          r = conveyor_RingBuffer_read (read_buffer c)
                (drop (nat bytes_read_total) buf) bytes_to_read_this_iter;
          read_this_iter = snd (snd r)
      in (c\<lparr>read_buffer := fst r,
             current_file_offset := to_off_t (current_file_offset c + int read_this_iter)\<rparr>,
          take (nat bytes_read_total) buf @ fst (snd r),
          read_this_iter))"

text \<open>
  The loop of lines 333 to 359, entered at its head. It stops at the wait of line 341
  when the read buffer is empty and neither the end of file nor the stop flag is set.
\<close>

function read_loop ::
  "'s ConveyorImpl \<Rightarrow> char list \<Rightarrow> int \<Rightarrow> nat \<Rightarrow> call_state \<times> 's ConveyorImpl \<times> char list" where
  "read_loop c buf bytes_read_total remaining_count =
     (if remaining_count > 0 \<and> \<not> read_worker_stop_flag c then
        if RingBuffer_empty (read_buffer c) then
          if read_eof_flag c then (Returned bytes_read_total, c, buf)
          else
            let c1 = c\<lparr>read_worker_needs_fill := True\<rparr>
            in if \<not> (available_data (read_buffer c1) > 0 \<or> read_eof_flag c1
                       \<or> read_worker_stop_flag c1)
               then (Waiting_read buf bytes_read_total remaining_count, c1, buf)
               else if available_data (read_buffer c1) = 0
               then (Returned bytes_read_total, c1, buf)
               else
                 let r = read_copy c1 buf bytes_read_total remaining_count
                 in read_loop (fst r) (fst (snd r))
                      (bytes_read_total + int (snd (snd r))) (remaining_count - snd (snd r))
        else
          let r = read_copy c buf bytes_read_total remaining_count
          in read_loop (fst r) (fst (snd r))
               (bytes_read_total + int (snd (snd r))) (remaining_count - snd (snd r))
      else (Returned bytes_read_total, c, buf))"
  by pat_completeness auto
termination
proof (relation "measure (\<lambda>(c, buf, total, remaining_count). remaining_count)", goal_cases)
  case 1
  show ?case by simp
next
  case (2 c buf bytes_read_total remaining_count x xa)
  then show ?case by (simp add: available_data_def RingBuffer_empty_def)
next
  case (3 c buf bytes_read_total remaining_count x)
  have "snd (snd (read_copy c buf bytes_read_total remaining_count))
        = min remaining_count (size_rb (read_buffer c))"
    by (simp add: read_copy_def conveyor_RingBuffer_read_def available_data_def Let_def)
  moreover have "0 < remaining_count" "0 < size_rb (read_buffer c)"
    using 3 by (simp_all add: RingBuffer_empty_def)
  moreover have "x = read_copy c buf bytes_read_total remaining_count" using 3 by simp
  ultimately show ?case by simp
qed

text \<open>
  The caller blocked at line 341 and woken up: the predicate of the wait, the test of
  line 345, the transfer, and the loop again.
\<close>

definition read_woken ::
  "'s ConveyorImpl \<Rightarrow> char list \<Rightarrow> int \<Rightarrow> nat \<Rightarrow> call_state \<times> 's ConveyorImpl \<times> char list" where
  "read_woken c buf bytes_read_total remaining_count =
     (if \<not> (available_data (read_buffer c) > 0 \<or> read_eof_flag c \<or> read_worker_stop_flag c)
      then (Waiting_read buf bytes_read_total remaining_count, c, buf)
      else if available_data (read_buffer c) = 0 then (Returned bytes_read_total, c, buf)
      else
        let r = read_copy c buf bytes_read_total remaining_count
        in read_loop (fst r) (fst (snd r))
             (bytes_read_total + int (snd (snd r))) (remaining_count - snd (snd r)))"

text \<open>
  \<open>conveyor_read(conv, buf, count)\<close>: the result is what the call does for its caller,
  the world, and the caller's array.
\<close>

definition conveyor_read ::
  "'s World \<Rightarrow> char list \<Rightarrow> nat \<Rightarrow> call_state \<times> 's World \<times> char list" where
  "conveyor_read w buf count =
     (case conv w of
        None \<Rightarrow> (Returned LIBCONVEYOR_ERROR, w\<lparr>errno := EBADF\<rparr>, buf)
      | Some c \<Rightarrow>
          if \<not> read_buffer_enabled c
          then (Returned LIBCONVEYOR_ERROR, w\<lparr>errno := EBADF\<rparr>, buf)
          else
            let r = read_loop c buf 0 count
            in (fst r, w\<lparr>conv := Some (fst (snd r))\<rparr>, snd (snd r)))"

definition conveyor_read_resume ::
  "'s World \<Rightarrow> char list \<Rightarrow> int \<Rightarrow> nat \<Rightarrow> call_state \<times> 's World \<times> char list" where
  "conveyor_read_resume w buf bytes_read_total remaining_count =
     (case conv w of
        None \<Rightarrow> (Waiting_read buf bytes_read_total remaining_count, w, buf)
      | Some c \<Rightarrow>
          let r = read_woken c buf bytes_read_total remaining_count
          in (fst r, w\<lparr>conv := Some (fst (snd r))\<rparr>, snd (snd r)))"

subsection \<open>Whole passes of the workers\<close>

text \<open>
  A worker that is scheduled without interruption: a pass under the mutex, the call of
  the store, and the mutex taken again.
\<close>

definition writeWorker_pass :: "'s World \<Rightarrow> 's World option" where
  "writeWorker_pass w =
     Option.bind (Option.bind (writeWorker_locked w) writeWorker_store) writeWorker_relock"

definition readWorker_pass :: "'s World \<Rightarrow> 's World option" where
  "readWorker_pass w =
     Option.bind (Option.bind (readWorker_locked w) readWorker_load) readWorker_relock"

subsection \<open>A backing store for concrete runs\<close>

text \<open>
  The mock store of the repository's tests for this interface
  (\<^verbatim>\<open>src/test/conveyor_test.cpp\<close>, lines 551 to 596): a vector of bytes and a file
  position, with \<open>mock_write\<close>, \<open>mock_read\<close> and \<open>mock_lseek\<close>. The position is
  never negative, \<open>mock_lseek\<close> being the only function that sets it freely.
\<close>

record MockStorage =
  g_mock_storage_data :: "char list"
  g_mock_storage_pos :: int

definition mock_write :: "MockStorage \<Rightarrow> int \<Rightarrow> char list \<Rightarrow> int \<times> MockStorage" where
  "mock_write st h buf =
     (let count = length buf;
          pos = nat (g_mock_storage_pos st);
          data1 = (if pos + count > length (g_mock_storage_data st)
                   then g_mock_storage_data st
                        @ replicate (pos + count - length (g_mock_storage_data st)) (CHR 0x00)
                   else g_mock_storage_data st);
          data2 = memcpy data1 pos buf 0 count
      in (int count,
          st\<lparr>g_mock_storage_data := data2,
             g_mock_storage_pos := g_mock_storage_pos st + int count\<rparr>))"

definition mock_read ::
  "MockStorage \<Rightarrow> int \<Rightarrow> char list \<Rightarrow> nat \<Rightarrow> (int \<times> char list) \<times> MockStorage" where
  "mock_read st h buf count =
     (let bytes_to_read =
            (if g_mock_storage_pos st < int (length (g_mock_storage_data st))
             then min count (length (g_mock_storage_data st) - nat (g_mock_storage_pos st))
             else 0)
      in if bytes_to_read > 0
         then ((int bytes_to_read,
                memcpy buf 0 (g_mock_storage_data st) (nat (g_mock_storage_pos st)) bytes_to_read),
               st\<lparr>g_mock_storage_pos := g_mock_storage_pos st + int bytes_to_read\<rparr>)
         else ((0, buf), st))"

definition mock_lseek :: "MockStorage \<Rightarrow> int \<Rightarrow> int \<Rightarrow> int \<Rightarrow> int \<times> MockStorage" where
  "mock_lseek st h offset whence =
     (let new_pos =
            (if whence = SEEK_SET then offset
             else if whence = SEEK_CUR then g_mock_storage_pos st + offset
             else if whence = SEEK_END then int (length (g_mock_storage_data st)) + offset
             else - 1)
      in if new_pos \<ge> 0 then (new_pos, st\<lparr>g_mock_storage_pos := new_pos\<rparr>)
         else (- 1, st))"

definition mock_ops :: "MockStorage storage_operations_t" where
  "mock_ops = \<lparr>ops_write = mock_write, ops_read = mock_read, ops_lseek = mock_lseek\<rparr>"

text \<open>
  A write callback that fails, as \<open>mock_pwrite_fail_once\<close> of the tests does on its
  first call: it stores nothing and returns \<open>LIBCONVEYOR_ERROR\<close>, having set the
  \<open>errno\<close> of its own thread, the worker's, to \<open>EIO\<close>.
\<close>

definition mock_write_fail :: "MockStorage \<Rightarrow> int \<Rightarrow> char list \<Rightarrow> int \<times> MockStorage" where
  "mock_write_fail st h buf = (LIBCONVEYOR_ERROR, st)"

definition mock_ops_fail :: "MockStorage storage_operations_t" where
  "mock_ops_fail = \<lparr>ops_write = mock_write_fail, ops_read = mock_read, ops_lseek = mock_lseek\<rparr>"

text \<open>
  A seek callback that reports a failure as a negated error code, here \<open>-EINVAL = -22\<close>
  for a negative offset.
\<close>

definition mock_lseek_einval :: "MockStorage \<Rightarrow> int \<Rightarrow> int \<Rightarrow> int \<Rightarrow> int \<times> MockStorage" where
  "mock_lseek_einval st h offset whence =
     (if offset < 0 then (- 22, st) else mock_lseek st h offset whence)"

definition mock_ops_einval :: "MockStorage storage_operations_t" where
  "mock_ops_einval =
     \<lparr>ops_write = mock_write, ops_read = mock_read, ops_lseek = mock_lseek_einval\<rparr>"

definition mock_empty :: MockStorage where
  "mock_empty = \<lparr>g_mock_storage_data = [], g_mock_storage_pos = 0\<rparr>"

text \<open>The world right after \<open>conveyor_create\<close>, on an empty store.\<close>

definition created ::
  "32 word \<Rightarrow> MockStorage storage_operations_t \<Rightarrow> nat \<Rightarrow> nat \<Rightarrow> MockStorage World" where
  "created flags' ops' write_buffer_size read_buffer_size =
     \<lparr>conv = Some (conveyor_create 1 flags' ops' write_buffer_size read_buffer_size),
      storage = mock_empty, errno = 0\<rparr>"

subsection \<open>A ring buffer for concrete runs\<close>

text \<open>
  The buffer after \<open>RingBuffer rb(4)\<close>, \<open>rb.write("abcd", 4)\<close>,
  \<open>rb.read(nullptr, 2)\<close> and \<open>rb.write("ef", 2)\<close>: full, and wrapped.
\<close>

definition rb_example :: RingBuffer where
  "rb_example = \<lparr>buffer = ''efcd'', capacity = 4, head = 2, tail = 2, size_rb = 4\<rparr>"

text \<open>
  The buffers that the interface of the struct can produce: built by the constructor
  with a positive capacity, then changed by its four operations only.
\<close>

inductive rb_reachable :: "RingBuffer \<Rightarrow> bool" where
  reach_init: "1 \<le> cap \<Longrightarrow> rb_reachable (RingBuffer_init cap)"
| reach_write: "rb_reachable rb \<Longrightarrow> rb_reachable (fst (RingBuffer_write rb data))"
| reach_read: "rb_reachable rb \<Longrightarrow> rb_reachable (fst (RingBuffer_read rb dst len))"
| reach_clear: "rb_reachable rb \<Longrightarrow> rb_reachable (RingBuffer_clear rb)"
| reach_resize: "rb_reachable rb \<Longrightarrow> rb_reachable (RingBuffer_resize rb new_capacity)"

text \<open>
  The rings of an engine: built by the constructor of \<open>ConveyorImpl\<close> with the capacity
  given to \<open>conveyor_create\<close>, which may be zero, then changed only by \<open>write\<close>,
  \<open>read\<close> and \<open>clear\<close>, the three operations that the engine calls on them.
\<close>

inductive engine_rb_reachable :: "RingBuffer \<Rightarrow> bool" where
  engine_init: "engine_rb_reachable (RingBuffer_init cap)"
| engine_write: "engine_rb_reachable rb \<Longrightarrow> engine_rb_reachable (fst (RingBuffer_write rb data))"
| engine_read:
    "engine_rb_reachable rb \<Longrightarrow> engine_rb_reachable (fst (conveyor_RingBuffer_read rb dst len))"
| engine_clear: "engine_rb_reachable rb \<Longrightarrow> engine_rb_reachable (RingBuffer_clear rb)"


declare write_loop.simps [simp del]
declare read_loop.simps [simp del]

section \<open>Properties of the ring buffer\<close>

subsection \<open>Copying\<close>

lemma memcpy_length:
  "memcpy_ok dst d src s n \<Longrightarrow> length (memcpy dst d src s n) = length dst"
  by (auto simp: memcpy_def memcpy_ok_def)

lemma memcpy_nth:
  assumes "memcpy_ok dst d src s n" "i < length dst"
  shows "memcpy dst d src s n ! i = (if d \<le> i \<and> i < d + n then src ! (s + (i - d)) else dst ! i)"
proof -
  have ld: "min (length dst) d = d" and ls: "min (length src - s) n = n"
    using assms by (auto simp: memcpy_ok_def)
  consider "i < d" | "d \<le> i" "i < d + n" | "d + n \<le> i" by linarith
  then show ?thesis
  proof cases
    case 1
    then show ?thesis by (simp add: memcpy_def nth_append ld)
  next
    case 2
    then have "i - d < n" "s \<le> length src" using assms by (auto simp: memcpy_ok_def)
    then show ?thesis using 2 by (simp add: memcpy_def nth_append ld ls)
  next
    case 3
    then have "\<not> i < d" "\<not> i - d < n" "d + n + (i - d - n) = i" by linarith+
    then show ?thesis using 3 assms
      by (simp add: memcpy_def nth_append ld ls memcpy_ok_def)
  qed
qed

lemma mod_add_wrap:
  fixes a b c :: nat
  assumes "a < c" "b \<le> c"
  shows "(a + b) mod c = (if a + b < c then a + b else a + b - c)"
proof (cases "a + b < c")
  case True
  then show ?thesis by simp
next
  case False
  then have "a + b - c < c" using assms by linarith
  moreover have "(a + b) mod c = (a + b - c) mod c"
    using False by (simp add: le_mod_geq)
  ultimately show ?thesis using False by simp
qed

text \<open>Copying out of the ring: the two memcpy calls of read and peek_at.\<close>

lemma circ_out:
  assumes "length buf = cap" "off < cap" "len \<le> cap" "len \<le> length d"
  defines "first \<equiv> min len (cap - off)"
  shows "(if first < len then memcpy (memcpy d 0 buf off first) first buf 0 (len - first)
          else memcpy d 0 buf off first)
         = map (\<lambda>k. buf ! ((off + k) mod cap)) [0 ..< len] @ drop len d"
    (is "?lhs = ?rhs")
proof (rule nth_equalityI)
  have ok1: "memcpy_ok d 0 buf off first"
    using assms by (auto simp: memcpy_ok_def)
  have l1: "length (memcpy d 0 buf off first) = length d"
    using ok1 by (rule memcpy_length)
  have ok2: "first < len \<Longrightarrow> memcpy_ok (memcpy d 0 buf off first) first buf 0 (len - first)"
    using assms l1 by (auto simp: memcpy_ok_def)
  show len: "length ?lhs = length ?rhs"
    using l1 ok2 assms(4) by (auto simp: memcpy_length)
  fix i assume "i < length ?lhs"
  then have i: "i < length d" using len assms(4) by auto
  have lhs: "?lhs ! i = (if first \<le> i \<and> i < len then buf ! (i - first)
                         else if i < first then buf ! (off + i) else d ! i)"
  proof (cases "first < len")
    case True
    then show ?thesis
      using memcpy_nth[OF ok2[OF True], of i] memcpy_nth[OF ok1 i] i l1
      by auto
  next
    case False
    then show ?thesis
      using memcpy_nth[OF ok1 i] by auto
  qed
  show "?lhs ! i = ?rhs ! i"
  proof (cases "i < len")
    case True
    have m: "(off + i) mod cap = (if off + i < cap then off + i else off + i - cap)"
      using mod_add_wrap[of off cap i] assms True by auto
    have r: "?rhs ! i = buf ! ((off + i) mod cap)"
      using True by (simp add: nth_append)
    show ?thesis
    proof (cases "i < first")
      case True
      then have "off + i < cap" by (auto simp: first_def)
      then show ?thesis using lhs r m True by simp
    next
      case False
      then have f: "first = cap - off" "\<not> off + i < cap"
        using True by (auto simp: first_def min_def split: if_splits)
      then have "off + i - cap = i - first" using assms(2) by linarith
      then show ?thesis using lhs r m False True f by simp
    qed
  next
    case False
    then have "\<not> i < first" by (simp add: first_def)
    then show ?thesis
      using False lhs i by (simp add: nth_append)
  qed
qed

lemma circ_in_length:
  assumes "length buf = cap" "h < cap" "n \<le> cap" "n \<le> length data"
  defines "first \<equiv> min n (cap - h)"
  shows "length (if first < n then memcpy (memcpy buf h data 0 first) 0 data first (n - first)
          else memcpy buf h data 0 first) = cap"
proof -
  have ok1: "memcpy_ok buf h data 0 first"
    using assms by (auto simp: memcpy_ok_def)
  have l1: "length (memcpy buf h data 0 first) = cap"
    using memcpy_length[OF ok1] assms(1) by simp
  have ok2: "first < n \<Longrightarrow> memcpy_ok (memcpy buf h data 0 first) 0 data first (n - first)"
    using assms l1 by (auto simp: memcpy_ok_def)
  show ?thesis using l1 ok2 by (auto simp: memcpy_length)
qed

lemma circ_in_nth:
  assumes "length buf = cap" "h < cap" "n \<le> cap" "n \<le> length data" "k < cap"
  defines "first \<equiv> min n (cap - h)"
  shows "(if first < n then memcpy (memcpy buf h data 0 first) 0 data first (n - first)
          else memcpy buf h data 0 first) ! k
         = (if h \<le> k \<and> k < h + n then data ! (k - h)
            else if k + cap < h + n then data ! (k + cap - h)
            else buf ! k)"
proof -
  have ok1: "memcpy_ok buf h data 0 first"
    using assms by (auto simp: memcpy_ok_def)
  have l1: "length (memcpy buf h data 0 first) = cap"
    using memcpy_length[OF ok1] assms(1) by simp
  have k1: "k < length buf" and k2: "k < length (memcpy buf h data 0 first)"
    using assms(1,5) l1 by simp_all
  have n1: "memcpy buf h data 0 first ! k
            = (if h \<le> k \<and> k < h + first then data ! (k - h) else buf ! k)"
    using memcpy_nth[OF ok1 k1] by simp
  show ?thesis
  proof (cases "first < n")
    case True
    then have f: "first = cap - h" by (auto simp: first_def min_def split: if_splits)
    have ok2: "memcpy_ok (memcpy buf h data 0 first) 0 data first (n - first)"
      using assms l1 True by (auto simp: memcpy_ok_def)
    have "memcpy (memcpy buf h data 0 first) 0 data first (n - first) ! k
          = (if k < n - first then data ! (first + k) else memcpy buf h data 0 first ! k)"
      using memcpy_nth[OF ok2 k2] by simp
    moreover have "k < n - first \<longleftrightarrow> k + cap < h + n" using f assms(2) True by linarith
    moreover have "k < n - first \<Longrightarrow> first + k = k + cap - h" using f assms(2) by linarith
    moreover have "k < n - first \<Longrightarrow> \<not> (h \<le> k \<and> k < h + n)" using f assms(2,3) by linarith
    moreover have "h \<le> k \<and> k < h + first \<longleftrightarrow> h \<le> k \<and> k < h + n"
      using f assms(2,5) True by linarith
    ultimately show ?thesis using True n1 by auto
  next
    case False
    then have f: "first = n" "h + n \<le> cap" using assms(2) by (auto simp: first_def min_def split: if_splits)
    then have "\<not> k + cap < h + n" by linarith
    then show ?thesis using False n1 f by simp
  qed
qed

subsection \<open>\<open>write\<close>\<close>

lemma length_contents [simp]: "length (contents rb) = size_rb rb"
  by (simp add: contents_def)

lemma nth_contents:
  "i < size_rb rb \<Longrightarrow> contents rb ! i = buffer rb ! ((tail rb + i) mod capacity rb)"
  by (simp add: contents_def)

lemma write_count:
  "snd (RingBuffer_write rb data) = min (length data) (capacity rb - size_rb rb)"
  by (auto simp: RingBuffer_write_def Let_def)

lemma write_unfold:
  assumes "0 < min (length data) (capacity rb - size_rb rb)"
  defines "n \<equiv> min (length data) (capacity rb - size_rb rb)"
  defines "first \<equiv> min n (capacity rb - head rb)"
  shows "fst (RingBuffer_write rb data) =
         rb\<lparr>buffer := (if first < n
                        then memcpy (memcpy (buffer rb) (head rb) data 0 first) 0 data first (n - first)
                        else memcpy (buffer rb) (head rb) data 0 first),
            head := (head rb + n) mod capacity rb,
            size_rb := size_rb rb + n\<rparr>"
proof -
  have "length data \<noteq> 0" "min (length data) (capacity rb - size_rb rb) \<noteq> 0"
    using assms(1) by auto
  then show ?thesis
    unfolding n_def first_def RingBuffer_write_def Let_def
    by (simp del: min_less_iff_conj)
qed

lemma write_same:
  "min (length data) (capacity rb - size_rb rb) = 0 \<Longrightarrow> fst (RingBuffer_write rb data) = rb"
  by (auto simp: RingBuffer_write_def Let_def)

lemma rb_upd_buffer: "buffer (rb\<lparr>buffer := B, head := H, size_rb := S\<rparr>) = B"
  by simp

lemma write_fields:
  assumes "min (length data) (capacity rb - size_rb rb) \<noteq> 0"
  shows "capacity (fst (RingBuffer_write rb data)) = capacity rb"
    and "tail (fst (RingBuffer_write rb data)) = tail rb"
    and "size_rb (fst (RingBuffer_write rb data))
         = size_rb rb + min (length data) (capacity rb - size_rb rb)"
    and "head (fst (RingBuffer_write rb data))
         = (head rb + min (length data) (capacity rb - size_rb rb)) mod capacity rb"
    and "buffer (fst (RingBuffer_write rb data))
         = (if min (min (length data) (capacity rb - size_rb rb)) (capacity rb - head rb)
               < min (length data) (capacity rb - size_rb rb)
            then memcpy (memcpy (buffer rb) (head rb) data 0
                           (min (min (length data) (capacity rb - size_rb rb)) (capacity rb - head rb)))
                   0 data (min (min (length data) (capacity rb - size_rb rb)) (capacity rb - head rb))
                   (min (length data) (capacity rb - size_rb rb)
                    - min (min (length data) (capacity rb - size_rb rb)) (capacity rb - head rb))
            else memcpy (buffer rb) (head rb) data 0
                   (min (min (length data) (capacity rb - size_rb rb)) (capacity rb - head rb)))"
proof -
  have pos: "0 < min (length data) (capacity rb - size_rb rb)" using assms by simp
  note u = write_unfold[OF pos]
  show "capacity (fst (RingBuffer_write rb data)) = capacity rb"
    by (subst u) simp
  show "tail (fst (RingBuffer_write rb data)) = tail rb"
    by (subst u) simp
  show "size_rb (fst (RingBuffer_write rb data))
         = size_rb rb + min (length data) (capacity rb - size_rb rb)"
    by (subst u) simp
  show "head (fst (RingBuffer_write rb data))
         = (head rb + min (length data) (capacity rb - size_rb rb)) mod capacity rb"
    by (subst u) simp
  show "buffer (fst (RingBuffer_write rb data))
         = (if min (min (length data) (capacity rb - size_rb rb)) (capacity rb - head rb)
               < min (length data) (capacity rb - size_rb rb)
            then memcpy (memcpy (buffer rb) (head rb) data 0
                           (min (min (length data) (capacity rb - size_rb rb)) (capacity rb - head rb)))
                   0 data (min (min (length data) (capacity rb - size_rb rb)) (capacity rb - head rb))
                   (min (length data) (capacity rb - size_rb rb)
                    - min (min (length data) (capacity rb - size_rb rb)) (capacity rb - head rb))
            else memcpy (buffer rb) (head rb) data 0
                   (min (min (length data) (capacity rb - size_rb rb)) (capacity rb - head rb)))"
    by (subst u) (rule rb_upd_buffer)
qed

lemma mod_head_step:
  fixes t s n c :: nat
  assumes "h = (t + s) mod c"
  shows "(h + n) mod c = (t + (s + n)) mod c"
proof -
  have "(h + n) mod c = ((t + s) mod c + n) mod c" using assms by simp
  also have "\<dots> = (t + s + n) mod c" by (rule mod_add_left_eq)
  also have "\<dots> = (t + (s + n)) mod c" by (simp only: add.assoc)
  finally show ?thesis .
qed

lemma write_inv:
  assumes "rb_inv rb"
  shows "rb_inv (fst (RingBuffer_write rb data))"
proof (cases "min (length data) (capacity rb - size_rb rb) = 0")
  case True
  then show ?thesis using assms by (simp add: write_same)
next
  case False
  define n where "n = min (length data) (capacity rb - size_rb rb)"
  define rb' where "rb' = fst (RingBuffer_write rb data)"
  have inv: "1 \<le> capacity rb" "length (buffer rb) = capacity rb" "size_rb rb \<le> capacity rb"
    "head rb < capacity rb" "tail rb < capacity rb"
    "head rb = (tail rb + size_rb rb) mod capacity rb"
    using assms unfolding rb_inv_def by blast+
  have n: "0 < n" "n \<le> capacity rb" "n \<le> length data" "size_rb rb + n \<le> capacity rb"
    using False inv(3) by (auto simp: n_def)
  have f: "capacity rb' = capacity rb" "tail rb' = tail rb" "size_rb rb' = size_rb rb + n"
    "head rb' = (head rb + n) mod capacity rb"
    unfolding rb'_def n_def using write_fields(1-4)[OF False] by blast+
  have pos: "0 < min (length data) (capacity rb - size_rb rb)" using False by simp
  have len: "length (buffer rb') = capacity rb"
    unfolding rb'_def write_fields(5)[OF False, folded n_def]
    by (rule circ_in_length[OF inv(2,4) n(2,3)])
  have hd: "head rb' = (tail rb' + size_rb rb') mod capacity rb'"
    unfolding f using mod_head_step[OF inv(6)] .
  have hb: "head rb' < capacity rb'"
    unfolding f using inv(1) by simp
  show ?thesis
    unfolding rb_inv_def rb'_def[symmetric]
    using hd hb len f(1,2,3) n(4) inv(1,5) by simp
qed

lemma write_contents:
  assumes "rb_inv rb"
  shows "contents (fst (RingBuffer_write rb data))
         = contents rb @ take (min (length data) (capacity rb - size_rb rb)) data"
proof (cases "min (length data) (capacity rb - size_rb rb) = 0")
  case True
  then show ?thesis by (simp add: write_same)
next
  case False
  define n where "n = min (length data) (capacity rb - size_rb rb)"
  define rb' where "rb' = fst (RingBuffer_write rb data)"
  define cap where "cap = capacity rb"
  define t where "t = tail rb"
  define s where "s = size_rb rb"
  define h where "h = head rb"
  have inv: "length (buffer rb) = cap" "h < cap" "t < cap" "h = (t + s) mod cap" "s \<le> cap"
    using assms unfolding rb_inv_def cap_def h_def t_def s_def by blast+
  have n: "0 < n" "n \<le> cap" "n \<le> length data" "s + n \<le> cap"
    using False inv(5) by (auto simp: n_def cap_def s_def)
  have h': "h = (if t + s < cap then t + s else t + s - cap)"
    using mod_add_wrap[of t cap s] inv by simp
  have fields: "tail rb' = t" "capacity rb' = cap" "size_rb rb' = s + n"
    unfolding rb'_def t_def cap_def s_def n_def using write_fields(1-3)[OF False] by blast+
  have buf: "buffer rb' ! k =
              (if h \<le> k \<and> k < h + n then data ! (k - h)
               else if k + cap < h + n then data ! (k + cap - h)
               else buffer rb ! k)" if "k < cap" for k
    unfolding rb'_def write_fields(5)[OF False, folded n_def, folded cap_def h_def]
    by (rule circ_in_nth[OF inv(1,2) n(2,3) that])
  have "contents rb' = contents rb @ take n data"
  proof (rule nth_equalityI)
    show "length (contents rb') = length (contents rb @ take n data)"
      using fields n by (simp add: s_def)
    fix i assume "i < length (contents rb')"
    then have i: "i < s + n" using fields by simp
    then have ic: "i \<le> cap" using n by linarith
    define k where "k = (t + i) mod cap"
    have k: "k = (if t + i < cap then t + i else t + i - cap)" "k < cap"
      using mod_add_wrap[of t cap i] inv ic by (auto simp: k_def)
    have l: "contents rb' ! i = buffer rb' ! k"
      using i fields by (simp add: nth_contents k_def)
    show "contents rb' ! i = (contents rb @ take n data) ! i"
    proof (cases "i < s")
      case True
      have "\<not> (h \<le> k \<and> k < h + n)" "\<not> k + cap < h + n"
        using True k h' inv(2,3,5) n by (auto split: if_splits)
      then have "buffer rb' ! k = buffer rb ! k" using buf[OF k(2)] by auto
      moreover have "(contents rb @ take n data) ! i = buffer rb ! k"
        using True by (simp add: nth_append nth_contents s_def k_def t_def cap_def)
      ultimately show ?thesis using l by simp
    next
      case False
      have "(h \<le> k \<and> k < h + n \<and> k - h = i - s) \<or>
            (\<not> (h \<le> k \<and> k < h + n) \<and> k + cap < h + n \<and> k + cap - h = i - s)"
        using False i k h' inv(2,3,5) n by (auto split: if_splits)
      then have "buffer rb' ! k = data ! (i - s)" using buf[OF k(2)] by auto
      moreover have "(contents rb @ take n data) ! i = data ! (i - s)"
        using False i by (simp add: nth_append s_def)
      ultimately show ?thesis using l by simp
    qed
  qed
  then show ?thesis unfolding rb'_def n_def .
qed

lemma write_fill:
  assumes "rb_inv rb" "capacity rb - size_rb rb \<le> length data"
  shows "head (fst (RingBuffer_write rb data)) = tail rb \<and>
         size_rb (fst (RingBuffer_write rb data)) = capacity rb"
proof (cases "min (length data) (capacity rb - size_rb rb) = 0")
  case True
  have inv: "size_rb rb \<le> capacity rb" "tail rb < capacity rb"
    "head rb = (tail rb + size_rb rb) mod capacity rb"
    using assms(1) unfolding rb_inv_def by blast+
  have "size_rb rb = capacity rb" using True assms(2) inv(1) by (auto simp: min_def split: if_splits)
  then show ?thesis using True inv by (simp add: write_same)
next
  case False
  have inv: "size_rb rb \<le> capacity rb" "tail rb < capacity rb"
    "head rb = (tail rb + size_rb rb) mod capacity rb"
    using assms(1) unfolding rb_inv_def by blast+
  have n: "min (length data) (capacity rb - size_rb rb) = capacity rb - size_rb rb"
    using assms(2) by simp
  have "(head rb + (capacity rb - size_rb rb)) mod capacity rb
        = (tail rb + (size_rb rb + (capacity rb - size_rb rb))) mod capacity rb"
    by (rule mod_head_step[OF inv(3)])
  also have "\<dots> = (tail rb + capacity rb) mod capacity rb" using inv(1) by simp
  also have "\<dots> = tail rb" using inv(2) by simp
  finally have "(head rb + (capacity rb - size_rb rb)) mod capacity rb = tail rb" .
  then show ?thesis
    using write_fields(3,4)[OF False] n inv(1) by simp
qed

subsection \<open>\<open>read\<close> and \<open>clear\<close>\<close>

lemma take_contents:
  "n \<le> size_rb rb \<Longrightarrow>
   take n (contents rb) = map (\<lambda>k. buffer rb ! ((tail rb + k) mod capacity rb)) [0 ..< n]"
  by (simp add: contents_def take_map min_def)

lemma read_none:
  "RingBuffer_read rb None len =
     (if min len (size_rb rb) = 0 then rb
      else rb\<lparr>tail := (tail rb + min len (size_rb rb)) mod capacity rb,
              size_rb := size_rb rb - min len (size_rb rb)\<rparr>,
      None, min len (size_rb rb))"
  by (auto simp: RingBuffer_read_def Let_def)

lemma read_some:
  assumes "rb_inv rb" "len \<le> length d"
  defines "n \<equiv> min len (size_rb rb)"
  shows "RingBuffer_read rb (Some d) len =
     (if n = 0 then rb
      else rb\<lparr>tail := (tail rb + n) mod capacity rb, size_rb := size_rb rb - n\<rparr>,
      Some (take n (contents rb) @ drop n d), n)"
proof (cases "n = 0")
  case True
  then show ?thesis unfolding n_def by (auto simp: RingBuffer_read_def Let_def)
next
  case False
  have inv: "length (buffer rb) = capacity rb" "tail rb < capacity rb" "size_rb rb \<le> capacity rb"
    using assms(1) unfolding rb_inv_def by blast+
  have n: "n \<le> capacity rb" "n \<le> length d" "n \<le> size_rb rb" "len \<noteq> 0"
    using inv(3) assms(2) False by (auto simp: n_def)
  define first where "first = min n (capacity rb - tail rb)"
  have out: "(if first < n then memcpy (memcpy d 0 (buffer rb) (tail rb) first) first (buffer rb) 0 (n - first)
          else memcpy d 0 (buffer rb) (tail rb) first)
         = take n (contents rb) @ drop n d"
    unfolding first_def take_contents[OF n(3)]
    by (rule circ_out[OF inv(1,2) n(1,2)])
  have "RingBuffer_read rb (Some d) len =
     (rb\<lparr>tail := (tail rb + n) mod capacity rb, size_rb := size_rb rb - n\<rparr>,
      Some (if first < n then memcpy (memcpy d 0 (buffer rb) (tail rb) first) first (buffer rb) 0 (n - first)
          else memcpy d 0 (buffer rb) (tail rb) first), n)"
    using False n(4) unfolding RingBuffer_read_def Let_def n_def first_def
    by (simp del: min_less_iff_conj)
  then show ?thesis using False out by simp
qed

lemma read_rb:
  "fst (RingBuffer_read rb data len) =
     (if min len (size_rb rb) = 0 then rb
      else rb\<lparr>tail := (tail rb + min len (size_rb rb)) mod capacity rb,
              size_rb := size_rb rb - min len (size_rb rb)\<rparr>)"
  by (auto simp: RingBuffer_read_def Let_def)

lemma read_count:
  "snd (snd (RingBuffer_read rb data len)) = min len (size_rb rb)"
  by (auto simp: RingBuffer_read_def Let_def)

lemma read_inv:
  assumes "rb_inv rb"
  shows "rb_inv (fst (RingBuffer_read rb data len))"
proof (cases "min len (size_rb rb) = 0")
  case True
  then show ?thesis using assms by (simp add: read_rb)
next
  case False
  define n where "n = min len (size_rb rb)"
  have inv: "1 \<le> capacity rb" "length (buffer rb) = capacity rb" "size_rb rb \<le> capacity rb"
    "head rb < capacity rb" "tail rb < capacity rb"
    "head rb = (tail rb + size_rb rb) mod capacity rb"
    using assms unfolding rb_inv_def by blast+
  have n: "n \<le> size_rb rb" by (simp add: n_def)
  have "((tail rb + n) mod capacity rb + (size_rb rb - n)) mod capacity rb
        = (tail rb + (n + (size_rb rb - n))) mod capacity rb"
    by (rule mod_head_step[OF refl])
  then have "head rb = ((tail rb + n) mod capacity rb + (size_rb rb - n)) mod capacity rb"
    using n inv(6) by simp
  then show ?thesis
    unfolding read_rb n_def[symmetric] rb_inv_def
    using False inv n by (simp add: n_def[symmetric])
qed

lemma read_contents:
  assumes "rb_inv rb"
  shows "contents (fst (RingBuffer_read rb data len)) = drop (min len (size_rb rb)) (contents rb)"
proof (cases "min len (size_rb rb) = 0")
  case True
  then show ?thesis by (simp add: read_rb)
next
  case False
  define n where "n = min len (size_rb rb)"
  have n: "n \<le> size_rb rb" by (simp add: n_def)
  have m: "((tail rb + n) mod capacity rb + i) mod capacity rb = (tail rb + (n + i)) mod capacity rb" for i
    by (rule mod_head_step[OF refl])
  have "contents (rb\<lparr>tail := (tail rb + n) mod capacity rb, size_rb := size_rb rb - n\<rparr>)
        = drop n (contents rb)"
    by (rule nth_equalityI) (simp_all add: nth_contents m)
  then show ?thesis using False unfolding read_rb n_def by simp
qed

lemma clear_inv: "rb_inv rb \<Longrightarrow> rb_inv (RingBuffer_clear rb)"
  by (simp add: rb_inv_def RingBuffer_clear_def)

lemma clear_contents: "contents (RingBuffer_clear rb) = []"
  by (simp add: contents_def RingBuffer_clear_def)

lemma init_inv: "1 \<le> cap \<Longrightarrow> rb_inv (RingBuffer_init cap)"
  by (simp add: rb_inv_def RingBuffer_init_def)

lemma init_contents: "contents (RingBuffer_init cap) = []"
  by (simp add: contents_def RingBuffer_init_def)

subsection \<open>\<open>resize\<close> and \<open>peek_at\<close>\<close>

lemma memcpy_zero: "memcpy dst d src s 0 = dst"
  by (simp add: memcpy_def)

lemma resize_fields:
  assumes "capacity rb < new_capacity"
  shows "tail (RingBuffer_resize rb new_capacity) = 0"
    and "head (RingBuffer_resize rb new_capacity) = size_rb rb"
    and "size_rb (RingBuffer_resize rb new_capacity) = size_rb rb"
    and "capacity (RingBuffer_resize rb new_capacity) = new_capacity"
  using assms by (simp_all add: RingBuffer_resize_def Let_def)

lemma resize_same: "new_capacity \<le> capacity rb \<Longrightarrow> RingBuffer_resize rb new_capacity = rb"
  by (simp add: RingBuffer_resize_def)

lemma resize_grow:
  assumes "rb_inv rb" "capacity rb < new_capacity"
  shows "RingBuffer_resize rb new_capacity =
         rb\<lparr>buffer := contents rb @ replicate (new_capacity - size_rb rb) (CHR 0x00),
            capacity := new_capacity, head := size_rb rb, tail := 0\<rparr>"
proof -
  define cap where "cap = capacity rb"
  define t where "t = tail rb"
  define s where "s = size_rb rb"
  define h where "h = head rb"
  define buf where "buf = buffer rb"
  define nb where "nb = replicate new_capacity (CHR 0x00)"
  have inv: "length buf = cap" "h < cap" "t < cap" "h = (t + s) mod cap" "s \<le> cap"
    using assms(1) unfolding rb_inv_def cap_def h_def t_def s_def buf_def by blast+
  have h': "h = (if t + s < cap then t + s else t + s - cap)"
    using mod_add_wrap[of t cap s] inv by simp
  have snb: "s \<le> length nb" using inv(5) assms(2) by (simp add: nb_def cap_def)
  define first where "first = min s (cap - t)"
  have out: "(if first < s then memcpy (memcpy nb 0 buf t first) first buf 0 (s - first)
              else memcpy nb 0 buf t first)
             = map (\<lambda>k. buf ! ((t + k) mod cap)) [0 ..< s] @ drop s nb"
    unfolding first_def by (rule circ_out[OF inv(1,3,5) snb])
  have c: "map (\<lambda>k. buf ! ((t + k) mod cap)) [0 ..< s] = contents rb"
    by (simp add: contents_def buf_def t_def cap_def s_def)
  have d: "drop s nb = replicate (new_capacity - s) (CHR 0x00)"
    by (simp add: nb_def)
  have copy: "(if 0 < s then
                 (if t < h then memcpy nb 0 buf t s
                  else memcpy (memcpy nb 0 buf t (cap - t)) (cap - t) buf 0 h)
               else nb) = contents rb @ replicate (new_capacity - s) (CHR 0x00)"
  proof (cases "0 < s")
    case False
    then have "s = 0" by simp
    then show ?thesis using c[symmetric] d by (simp add: nb_def)
  next
    case True
    show ?thesis
    proof (cases "t < h")
      case True
      then have "t + s < cap" "first = s" using h' inv(5) by (auto simp: first_def split: if_splits)
      then show ?thesis using out c d True \<open>0 < s\<close> by simp
    next
      case False
      then have w: "\<not> t + s < cap" "h = t + s - cap" using h' \<open>0 < s\<close> by (auto split: if_splits)
      then have f: "first = cap - t" "s - first = h" using inv(3) by (auto simp: first_def)
      show ?thesis
      proof (cases "first < s")
        case True
        then show ?thesis using out c d False f \<open>0 < s\<close> by simp
      next
        case False
        then have "h = 0" using f w inv(3) by linarith
        then show ?thesis using out c d False f \<open>0 < s\<close> \<open>\<not> t < h\<close> by (simp add: memcpy_zero)
      qed
    qed
  qed
  have "RingBuffer_resize rb new_capacity =
        rb\<lparr>buffer := (if 0 < s then
                 (if t < h then memcpy nb 0 buf t s
                  else memcpy (memcpy nb 0 buf t (cap - t)) (cap - t) buf 0 h)
               else nb),
            capacity := new_capacity, head := s, tail := 0\<rparr>"
    using assms(2) unfolding RingBuffer_resize_def Let_def cap_def t_def s_def h_def buf_def nb_def
    by simp
  also have "\<dots> = rb\<lparr>buffer := contents rb @ replicate (new_capacity - s) (CHR 0x00),
            capacity := new_capacity, head := s, tail := 0\<rparr>"
    by (simp only: copy)
  finally show ?thesis unfolding s_def .
qed

lemma resize_inv:
  assumes "rb_inv rb"
  shows "rb_inv (RingBuffer_resize rb new_capacity)"
proof (cases "new_capacity \<le> capacity rb")
  case True
  then show ?thesis using assms by (simp add: resize_same)
next
  case False
  then have g: "capacity rb < new_capacity" by simp
  have inv: "1 \<le> capacity rb" "size_rb rb \<le> capacity rb"
    using assms unfolding rb_inv_def by blast+
  show ?thesis
    unfolding resize_grow[OF assms g] rb_inv_def
    using g inv by simp
qed

lemma resize_contents:
  assumes "rb_inv rb"
  shows "contents (RingBuffer_resize rb new_capacity) = contents rb"
proof (cases "new_capacity \<le> capacity rb")
  case True
  then show ?thesis by (simp add: resize_same)
next
  case False
  then have g: "capacity rb < new_capacity" by simp
  have inv: "size_rb rb \<le> capacity rb"
    using assms unfolding rb_inv_def by blast+
  show ?thesis
    unfolding resize_grow[OF assms g]
    by (rule nth_equalityI) (use g inv in \<open>simp_all add: nth_contents nth_append\<close>)
qed

lemma peek_at_reads_eq:
  assumes "1 \<le> capacity rb" "len \<le> capacity rb"
  shows "peek_at_reads rb pos len = map (\<lambda>k. (pos + k) mod capacity rb) [0 ..< len]"
proof -
  define cap where "cap = capacity rb"
  define off where "off = pos mod cap"
  define first where "first = min len (cap - off)"
  have off: "off < cap" using assms(1) by (simp add: off_def cap_def)
  have m: "(pos + k) mod cap = (off + k) mod cap" for k
    unfolding off_def by (simp add: mod_add_left_eq)
  have "[off ..< off + first] @ (if first < len then [0 ..< len - first] else [])
        = map (\<lambda>k. (off + k) mod cap) [0 ..< len]"
  proof (rule nth_equalityI)
    show "length ([off ..< off + first] @ (if first < len then [0 ..< len - first] else []))
          = length (map (\<lambda>k. (off + k) mod cap) [0 ..< len])"
      by (auto simp: first_def)
    fix i assume "i < length ([off ..< off + first] @ (if first < len then [0 ..< len - first] else []))"
    then have i: "i < len" by (auto simp: first_def split: if_splits)
    have w: "(off + i) mod cap = (if off + i < cap then off + i else off + i - cap)"
      using mod_add_wrap[of off cap i] off i assms(2) by (simp add: cap_def)
    show "([off ..< off + first] @ (if first < len then [0 ..< len - first] else [])) ! i
          = map (\<lambda>k. (off + k) mod cap) [0 ..< len] ! i"
    proof (cases "i < first")
      case True
      then have "off + i < cap" by (auto simp: first_def)
      then show ?thesis using True i w by (simp add: nth_append)
    next
      case False
      then have f: "first = cap - off" "\<not> off + i < cap" "first < len"
        using i by (auto simp: first_def min_def split: if_splits)
      then have "i - first = off + i - cap" using off by linarith
      then show ?thesis using False i w f by (simp add: nth_append)
    qed
  qed
  then show ?thesis
    unfolding peek_at_reads_def Let_def cap_def[symmetric] off_def[symmetric] first_def[symmetric] m
    by simp
qed

lemma peek_at_eq:
  assumes "1 \<le> capacity rb" "length (buffer rb) = capacity rb" "len \<le> capacity rb"
    "len \<le> length dest"
  shows "RingBuffer_peek_at rb pos dest len =
         (rb, map (\<lambda>i. buffer rb ! i) (peek_at_reads rb pos len) @ drop len dest, len)"
proof -
  define cap where "cap = capacity rb"
  define off where "off = pos mod cap"
  define first where "first = min len (cap - off)"
  have off: "off < cap" using assms(1) by (simp add: off_def cap_def)
  have m: "(pos + k) mod cap = (off + k) mod cap" for k
    unfolding off_def by (simp add: mod_add_left_eq)
  have out: "(if first < len then memcpy (memcpy dest 0 (buffer rb) off first) first (buffer rb) 0 (len - first)
          else memcpy dest 0 (buffer rb) off first)
         = map (\<lambda>k. buffer rb ! ((off + k) mod cap)) [0 ..< len] @ drop len dest"
    unfolding first_def
    by (rule circ_out[OF assms(2)[folded cap_def] off assms(3)[folded cap_def] assms(4)])
  have r: "map (\<lambda>i. buffer rb ! i) (peek_at_reads rb pos len)
           = map (\<lambda>k. buffer rb ! ((off + k) mod cap)) [0 ..< len]"
    unfolding peek_at_reads_eq[OF assms(1,3)] cap_def[symmetric] m by (simp add: comp_def)
  show ?thesis
    unfolding RingBuffer_peek_at_def Let_def cap_def[symmetric] off_def[symmetric]
      first_def[symmetric] r out ..
qed

lemma peek_at_memcpy_ok:
  fixes absolute_ring_pos :: nat
  assumes "1 \<le> capacity rb" "length (buffer rb) = capacity rb" "len \<le> capacity rb"
    "len \<le> length dest"
  defines "offset \<equiv> absolute_ring_pos mod capacity rb"
  defines "first_chunk \<equiv> min len (capacity rb - offset)"
  shows "memcpy_ok dest 0 (buffer rb) offset first_chunk"
    and "first_chunk < len \<Longrightarrow>
         memcpy_ok (memcpy dest 0 (buffer rb) offset first_chunk) first_chunk (buffer rb) 0
           (len - first_chunk)"
proof -
  have off: "offset < capacity rb" using assms(1) by (simp add: offset_def)
  show ok1: "memcpy_ok dest 0 (buffer rb) offset first_chunk"
    using off assms(2,4) by (auto simp: memcpy_ok_def first_chunk_def)
  assume w: "first_chunk < len"
  then have f: "first_chunk = capacity rb - offset"
    by (auto simp: first_chunk_def min_def split: if_splits)
  have "len - first_chunk \<le> length (buffer rb)" using assms(2,3) by simp
  then show "memcpy_ok (memcpy dest 0 (buffer rb) offset first_chunk) first_chunk (buffer rb) 0
           (len - first_chunk)"
    using memcpy_length[OF ok1] w assms(4) by (simp add: memcpy_ok_def)
qed

subsection \<open>The bounds alone\<close>

lemma write_bounds:
  assumes "rb_bounds rb"
  shows "rb_bounds (fst (RingBuffer_write rb data))"
proof (cases "min (length data) (capacity rb - size_rb rb) = 0")
  case True
  then show ?thesis using assms by (simp add: write_same)
next
  case False
  have b: "1 \<le> capacity rb" "size_rb rb \<le> capacity rb" "tail rb < capacity rb"
    using assms unfolding rb_bounds_def by blast+
  have "size_rb rb + min (length data) (capacity rb - size_rb rb) \<le> capacity rb"
    using b(2) by simp
  moreover have "(head rb + min (length data) (capacity rb - size_rb rb)) mod capacity rb
                 < capacity rb"
    using b(1) by simp
  ultimately show ?thesis
    unfolding rb_bounds_def write_fields(1-4)[OF False] using b by simp
qed

lemma read_bounds:
  assumes "rb_bounds rb"
  shows "rb_bounds (fst (RingBuffer_read rb dst len))"
  using assms by (auto simp: read_rb rb_bounds_def)

lemma clear_bounds: "rb_bounds rb \<Longrightarrow> rb_bounds (RingBuffer_clear rb)"
  by (simp add: rb_bounds_def RingBuffer_clear_def)

lemma resize_bounds: "rb_bounds rb \<Longrightarrow> rb_bounds (RingBuffer_resize rb new_capacity)"
  by (simp add: rb_bounds_def RingBuffer_resize_def Let_def)

lemma rb_inv_bounds: "rb_inv rb \<Longrightarrow> rb_bounds rb"
  by (simp add: rb_inv_def rb_bounds_def)

text \<open>Every buffer that the interface can produce satisfies the invariant.\<close>

lemma rb_reachable_inv: "rb_reachable rb \<Longrightarrow> rb_inv rb"
  by (induction rule: rb_reachable.induct)
     (simp_all add: init_inv write_inv read_inv clear_inv resize_inv)

subsection \<open>The claims about the ring buffer\<close>

lemma rb_example_built:
  "fst (RingBuffer_write (fst (RingBuffer_read (fst (RingBuffer_write (RingBuffer_init 4) ''abcd''))
          None 2)) ''ef'') = rb_example"
  by code_simp

text \<open>
  Claim C7. For \<open>new_capacity \<le> capacity\<close>, \<open>resize(new_capacity)\<close> leaves the
  buffer as it is. For \<open>new_capacity\<close> greater than the capacity it leaves
  \<open>tail = 0\<close>, \<open>head = size\<close>, \<open>size\<close> as before and \<open>capacity = new_capacity\<close>;
  and on a buffer that satisfies the invariant of the data model (so
  \<open>capacity \<ge> 1\<close>) it keeps the logical bytes: reading \<open>size\<close> bytes after it, into
  any array long enough, delivers the bytes that reading \<open>size\<close> bytes before it
  delivers, which are the contents.
\<close>

theorem resize_preserves_contents:
  "(new_capacity \<le> capacity rb \<longrightarrow> RingBuffer_resize rb new_capacity = rb) \<and>
   (capacity rb < new_capacity \<longrightarrow>
      tail (RingBuffer_resize rb new_capacity) = 0 \<and>
      head (RingBuffer_resize rb new_capacity) = size_rb rb \<and>
      size_rb (RingBuffer_resize rb new_capacity) = size_rb rb \<and>
      capacity (RingBuffer_resize rb new_capacity) = new_capacity) \<and>
   (rb_inv rb \<and> capacity rb < new_capacity \<longrightarrow>
      rb_inv (RingBuffer_resize rb new_capacity) \<and>
      contents (RingBuffer_resize rb new_capacity) = contents rb \<and>
      (size_rb rb \<le> length dst \<longrightarrow>
         fst (snd (RingBuffer_read (RingBuffer_resize rb new_capacity) (Some dst) (size_rb rb)))
           = fst (snd (RingBuffer_read rb (Some dst) (size_rb rb))) \<and>
         fst (snd (RingBuffer_read rb (Some dst) (size_rb rb)))
           = Some (contents rb @ drop (size_rb rb) dst)))"
proof (intro conjI impI)
  assume "new_capacity \<le> capacity rb"
  then show "RingBuffer_resize rb new_capacity = rb" by (rule resize_same)
next
  assume g: "capacity rb < new_capacity"
  show "tail (RingBuffer_resize rb new_capacity) = 0"
    "head (RingBuffer_resize rb new_capacity) = size_rb rb"
    "size_rb (RingBuffer_resize rb new_capacity) = size_rb rb"
    "capacity (RingBuffer_resize rb new_capacity) = new_capacity"
    by (rule resize_fields[OF g])+
next
  assume "rb_inv rb \<and> capacity rb < new_capacity"
  then show "rb_inv (RingBuffer_resize rb new_capacity)" by (simp add: resize_inv)
next
  assume "rb_inv rb \<and> capacity rb < new_capacity"
  then show "contents (RingBuffer_resize rb new_capacity) = contents rb"
    by (simp add: resize_contents)
next
  assume a: "rb_inv rb \<and> capacity rb < new_capacity" and l: "size_rb rb \<le> length dst"
  let ?rb' = "RingBuffer_resize rb new_capacity"
  have i: "rb_inv rb" and g: "capacity rb < new_capacity" using a by blast+
  have inv': "rb_inv ?rb'" using i by (rule resize_inv)
  have c: "contents ?rb' = contents rb" using i by (rule resize_contents)
  have s: "size_rb ?rb' = size_rb rb" by (rule resize_fields(3)[OF g])
  have l': "size_rb rb \<le> length dst" by (rule l)
  have after: "fst (snd (RingBuffer_read ?rb' (Some dst) (size_rb rb)))
        = Some (take (size_rb rb) (contents ?rb') @ drop (size_rb rb) dst)"
    using read_some[OF inv' l'] s by simp
  have before: "fst (snd (RingBuffer_read rb (Some dst) (size_rb rb)))
        = Some (take (size_rb rb) (contents rb) @ drop (size_rb rb) dst)"
    using read_some[OF i l'] by simp
  show "fst (snd (RingBuffer_read ?rb' (Some dst) (size_rb rb)))
        = fst (snd (RingBuffer_read rb (Some dst) (size_rb rb)))"
    using after before c by simp
  show "fst (snd (RingBuffer_read rb (Some dst) (size_rb rb)))
           = Some (contents rb @ drop (size_rb rb) dst)"
    using before by simp
qed

theorem resize_preserves_contents_witness:
  "3 \<le> capacity rb_example \<and> capacity rb_example < 6 \<and> rb_inv rb_example \<and>
   size_rb rb_example \<le> length ''....'' \<and>
   RingBuffer_resize rb_example 3 = rb_example \<and>
   tail (RingBuffer_resize rb_example 6) = 0 \<and>
   head (RingBuffer_resize rb_example 6) = size_rb rb_example \<and>
   size_rb (RingBuffer_resize rb_example 6) = size_rb rb_example \<and>
   capacity (RingBuffer_resize rb_example 6) = 6 \<and>
   rb_inv (RingBuffer_resize rb_example 6) \<and>
   contents (RingBuffer_resize rb_example 6) = contents rb_example \<and>
   fst (snd (RingBuffer_read (RingBuffer_resize rb_example 6) (Some ''....'') (size_rb rb_example)))
     = fst (snd (RingBuffer_read rb_example (Some ''....'') (size_rb rb_example))) \<and>
   fst (snd (RingBuffer_read rb_example (Some ''....'') (size_rb rb_example))) = Some ''cdef''"
proof -
  have h1: "rb_inv rb_example" by code_simp
  have h2: "size_rb rb_example \<le> length ''....''" by code_simp
  have h3: "capacity rb_example < 6" by code_simp
  have h4: "3 \<le> capacity rb_example" by code_simp
  have r: "fst (snd (RingBuffer_read rb_example (Some ''....'') (size_rb rb_example))) = Some ''cdef''"
    by code_simp
  show ?thesis
    using h1 h2 h3 h4 r resize_preserves_contents[of 6 rb_example "''....''"]
      resize_preserves_contents[of 3 rb_example]
    by blast
qed

text \<open>
  Claim C8. Every operation of the ring buffer (\<open>write\<close>, \<open>read\<close>, \<open>clear\<close>,
  \<open>resize\<close>) takes a buffer with \<open>capacity \<ge> 1\<close>, \<open>size \<le> capacity\<close> and \<open>head\<close>
  and \<open>tail\<close> below \<open>capacity\<close> to a buffer within these bounds again. It also keeps
  the invariant of the data model, which adds that the logical bytes are those at the
  indices \<open>[tail, tail + size) mod capacity\<close>, with \<open>head\<close> at their end: these bytes
  are the contents of a queue, to which \<open>write\<close> appends the bytes it accepts, from
  which \<open>read\<close> delivers and removes the first ones, which \<open>clear\<close> empties and
  \<open>resize\<close> keeps. An append that fills the buffer leaves \<open>head = tail\<close> and
  \<open>size = capacity\<close>.
\<close>

theorem ring_buffer_invariant:
  "(rb_bounds rb \<longrightarrow>
      rb_bounds (fst (RingBuffer_write rb data)) \<and>
      rb_bounds (fst (RingBuffer_read rb dst len)) \<and>
      rb_bounds (RingBuffer_clear rb) \<and>
      rb_bounds (RingBuffer_resize rb new_capacity)) \<and>
   (rb_inv rb \<longrightarrow>
      rb_inv (fst (RingBuffer_write rb data)) \<and>
      contents (fst (RingBuffer_write rb data)) = contents rb @ take (available_space rb) data \<and>
      snd (RingBuffer_write rb data) = min (length data) (available_space rb) \<and>
      (available_space rb \<le> length data \<longrightarrow>
         head (fst (RingBuffer_write rb data)) = tail rb \<and>
         size_rb (fst (RingBuffer_write rb data)) = capacity rb) \<and>
      rb_inv (fst (RingBuffer_read rb dst len)) \<and>
      contents (fst (RingBuffer_read rb dst len)) = drop len (contents rb) \<and>
      snd (snd (RingBuffer_read rb dst len)) = min len (size_rb rb) \<and>
      (len \<le> length d \<longrightarrow>
         fst (snd (RingBuffer_read rb (Some d) len))
           = Some (take len (contents rb) @ drop (min len (size_rb rb)) d)) \<and>
      rb_inv (RingBuffer_clear rb) \<and> contents (RingBuffer_clear rb) = [] \<and>
      rb_inv (RingBuffer_resize rb new_capacity) \<and>
      contents (RingBuffer_resize rb new_capacity) = contents rb)"
proof (intro conjI impI)
  assume b: "rb_bounds rb"
  show "rb_bounds (fst (RingBuffer_write rb data))" using b by (rule write_bounds)
  show "rb_bounds (fst (RingBuffer_read rb dst len))" using b by (rule read_bounds)
  show "rb_bounds (RingBuffer_clear rb)" using b by (rule clear_bounds)
  show "rb_bounds (RingBuffer_resize rb new_capacity)" using b by (rule resize_bounds)
next
  assume i: "rb_inv rb"
  show "rb_inv (fst (RingBuffer_write rb data))" using i by (rule write_inv)
  have "take (min (length data) (capacity rb - size_rb rb)) data = take (available_space rb) data"
    by (simp add: available_space_def min_def)
  then show "contents (fst (RingBuffer_write rb data))
             = contents rb @ take (available_space rb) data"
    using write_contents[OF i, of data] by simp
  show "snd (RingBuffer_write rb data) = min (length data) (available_space rb)"
    by (simp add: write_count available_space_def)
  show "rb_inv (fst (RingBuffer_read rb dst len))" using i by (rule read_inv)
  show "contents (fst (RingBuffer_read rb dst len)) = drop len (contents rb)"
    using read_contents[OF i, of dst len] by (simp add: min_def)
  show "snd (snd (RingBuffer_read rb dst len)) = min len (size_rb rb)" by (rule read_count)
  show "rb_inv (RingBuffer_clear rb)" using i by (rule clear_inv)
  show "contents (RingBuffer_clear rb) = []" by (rule clear_contents)
  show "rb_inv (RingBuffer_resize rb new_capacity)" using i by (rule resize_inv)
  show "contents (RingBuffer_resize rb new_capacity) = contents rb" using i by (rule resize_contents)
next
  assume i: "rb_inv rb" and f: "available_space rb \<le> length data"
  have g: "capacity rb - size_rb rb \<le> length data" using f by (simp add: available_space_def)
  show "head (fst (RingBuffer_write rb data)) = tail rb"
    using write_fill[OF i g] by simp
  show "size_rb (fst (RingBuffer_write rb data)) = capacity rb"
    using write_fill[OF i g] by simp
next
  assume i: "rb_inv rb" and l: "len \<le> length d"
  show "fst (snd (RingBuffer_read rb (Some d) len))
           = Some (take len (contents rb) @ drop (min len (size_rb rb)) d)"
    using read_some[OF i l] by (simp add: min_def)
qed

theorem ring_buffer_invariant_witness:
  "rb_bounds rb_example \<and> rb_inv rb_example \<and> rb_inv (RingBuffer_init 4) \<and>
   available_space (RingBuffer_init 4) \<le> length ''abcdef'' \<and> 2 \<le> length ''..'' \<and>
   rb_bounds (fst (RingBuffer_write rb_example ''gh'')) \<and>
   rb_bounds (fst (RingBuffer_read rb_example (Some ''..'') 2)) \<and>
   rb_bounds (RingBuffer_clear rb_example) \<and>
   rb_bounds (RingBuffer_resize rb_example 9) \<and>
   rb_inv (fst (RingBuffer_write (RingBuffer_init 4) ''abcdef'')) \<and>
   contents (fst (RingBuffer_write (RingBuffer_init 4) ''abcdef''))
     = contents (RingBuffer_init 4) @ take (available_space (RingBuffer_init 4)) ''abcdef'' \<and>
   head (fst (RingBuffer_write (RingBuffer_init 4) ''abcdef'')) = tail (RingBuffer_init 4) \<and>
   size_rb (fst (RingBuffer_write (RingBuffer_init 4) ''abcdef'')) = capacity (RingBuffer_init 4) \<and>
   rb_inv (fst (RingBuffer_read rb_example (Some ''..'') 2)) \<and>
   fst (snd (RingBuffer_read rb_example (Some ''..'') 2))
     = Some (take 2 (contents rb_example) @ drop (min 2 (size_rb rb_example)) ''..'') \<and>
   rb_inv (RingBuffer_clear rb_example) \<and> rb_inv (RingBuffer_resize rb_example 9)"
proof -
  have h0: "rb_bounds rb_example" by code_simp
  have h1: "rb_inv (RingBuffer_init 4)" by code_simp
  have h2: "available_space (RingBuffer_init 4) \<le> length ''abcdef''" by code_simp
  have h3: "rb_inv rb_example" by code_simp
  have h4: "2 \<le> length ''..''" by simp
  show ?thesis
    using h0 h1 h2 h3 h4 ring_buffer_invariant[of "RingBuffer_init 4" "''abcdef''"]
      ring_buffer_invariant[of rb_example "''gh''" "Some ''..''" 2 9 "''..''"]
    by blast
qed

text \<open>
  Claim C10. For every ring buffer with \<open>capacity \<ge> 1\<close> whose vector has \<open>capacity\<close>
  bytes, every position and every \<open>len \<le> capacity\<close>, \<open>peek_at(position, dest, len)\<close>
  on an array \<open>dest\<close> of at least \<open>len\<close> bytes reads the indices
  \<open>(position + k) mod capacity\<close> for \<open>k < len\<close> and no other, all of them inside the
  vector (so it wraps at most once), puts these \<open>len\<close> bytes at the front of \<open>dest\<close>
  and leaves the rest of \<open>dest\<close> alone, returns \<open>len\<close>, and returns the buffer as it
  was: \<open>head\<close>, \<open>tail\<close>, \<open>size\<close> and every other field. Both \<open>memcpy\<close> calls
  stay inside their arrays.
\<close>

theorem peek_at_in_bounds:
  assumes "1 \<le> capacity rb" "length (buffer rb) = capacity rb" "len \<le> capacity rb"
    "len \<le> length dest"
  shows "RingBuffer_peek_at rb absolute_ring_pos dest len =
           (rb, map (\<lambda>i. buffer rb ! i) (peek_at_reads rb absolute_ring_pos len) @ drop len dest, len) \<and>
         peek_at_reads rb absolute_ring_pos len
           = map (\<lambda>k. (absolute_ring_pos + k) mod capacity rb) [0 ..< len] \<and>
         (\<forall>i \<in> set (peek_at_reads rb absolute_ring_pos len). i < length (buffer rb)) \<and>
         length (fst (snd (RingBuffer_peek_at rb absolute_ring_pos dest len))) = length dest \<and>
         memcpy_ok dest 0 (buffer rb) (absolute_ring_pos mod capacity rb)
           (min len (capacity rb - absolute_ring_pos mod capacity rb)) \<and>
         (min len (capacity rb - absolute_ring_pos mod capacity rb) < len \<longrightarrow>
            memcpy_ok
              (memcpy dest 0 (buffer rb) (absolute_ring_pos mod capacity rb)
                 (min len (capacity rb - absolute_ring_pos mod capacity rb)))
              (min len (capacity rb - absolute_ring_pos mod capacity rb)) (buffer rb) 0
              (len - min len (capacity rb - absolute_ring_pos mod capacity rb)))"
proof -
  have e: "RingBuffer_peek_at rb absolute_ring_pos dest len =
           (rb, map (\<lambda>i. buffer rb ! i) (peek_at_reads rb absolute_ring_pos len) @ drop len dest, len)"
    by (rule peek_at_eq[OF assms])
  have r: "peek_at_reads rb absolute_ring_pos len
           = map (\<lambda>k. (absolute_ring_pos + k) mod capacity rb) [0 ..< len]"
    by (rule peek_at_reads_eq[OF assms(1,3)])
  have b: "\<forall>i \<in> set (peek_at_reads rb absolute_ring_pos len). i < length (buffer rb)"
    unfolding r using assms(1,2) by auto
  have l: "length (fst (snd (RingBuffer_peek_at rb absolute_ring_pos dest len))) = length dest"
    unfolding e r using assms(4) by simp
  show ?thesis
    using e r b l peek_at_memcpy_ok[OF assms, of absolute_ring_pos] by blast
qed

theorem peek_at_in_bounds_witness:
  "1 \<le> capacity rb_example \<and> length (buffer rb_example) = capacity rb_example \<and>
   3 \<le> capacity rb_example \<and> 3 \<le> length ''wxyz'' \<and>
   RingBuffer_peek_at rb_example 7 ''wxyz'' 3 = (rb_example, ''defz'', 3) \<and>
   peek_at_reads rb_example 7 3 = [3, 0, 1]"
proof -
  have h1: "1 \<le> capacity rb_example" by code_simp
  have h2: "length (buffer rb_example) = capacity rb_example" by code_simp
  have h3: "3 \<le> capacity rb_example" by code_simp
  have h4: "3 \<le> length ''wxyz''" by simp
  note t = peek_at_in_bounds[OF h1 h2 h3 h4, of 7]
  have e: "RingBuffer_peek_at rb_example 7 ''wxyz'' 3 =
           (rb_example,
            map (\<lambda>i. buffer rb_example ! i) (peek_at_reads rb_example 7 3) @ drop 3 ''wxyz'', 3)"
    using t by blast
  have r: "peek_at_reads rb_example 7 3 = map (\<lambda>k. (7 + k) mod capacity rb_example) [0 ..< 3]"
    using t by blast
  have v: "map (\<lambda>i. buffer rb_example ! i) (peek_at_reads rb_example 7 3) @ drop 3 ''wxyz'' = ''defz''"
    by code_simp
  have m: "map (\<lambda>k. (7 + k) mod capacity rb_example) [0 ..< 3] = [3, 0, 1]"
    by code_simp
  show ?thesis
    using h1 h2 h3 h4 e[unfolded v] r[unfolded m] by blast
qed

section \<open>Properties of the engine\<close>

subsection \<open>Runs in which the worker keeps up\<close>

text \<open>
  When the write worker completes its pass before the caller goes on, the engine does
  what one expects: a flush finds the bytes in the store, a seek and a read bring them
  back, and a write longer than the write buffer is stored whole and in order.
\<close>

lemma run_write_flush:
  "(let (r1, w1) = conveyor_write (created O_WRONLY mock_ops 4 0) ''ab''
    in r1 = Returned 2 \<and>
       (case writeWorker_pass w1 of
          None \<Rightarrow> False
        | Some w2 \<Rightarrow>
            fst (conveyor_flush w2) = Returned 0 \<and>
            g_mock_storage_data (storage (snd (conveyor_flush w2))) = ''ab''))"
  by code_simp

lemma run_write_seek_read:
  "(let (r1, w1) = conveyor_write (created O_RDWR mock_ops 4 4) ''ab''
    in r1 = Returned 2 \<and>
       (case writeWorker_pass w1 of
          None \<Rightarrow> False
        | Some w2 \<Rightarrow>
            let (r3, w3) = conveyor_lseek w2 0 SEEK_SET;
                (r4, w4, buf4) = conveyor_read w3 ''..'' 2
            in r3 = Returned 0 \<and> r4 = Waiting_read ''..'' 0 2 \<and>
               (case readWorker_pass w4 of
                  None \<Rightarrow> False
                | Some w5 \<Rightarrow>
                    fst (conveyor_read_resume w5 ''..'' 0 2) = Returned 2 \<and>
                    snd (snd (conveyor_read_resume w5 ''..'' 0 2)) = ''ab'')))"
  by code_simp

lemma run_oversize_write:
  "(let (r1, w1) = conveyor_write (created O_WRONLY mock_ops 4 0) ''abcdef''
    in r1 = Waiting_write ''ef'' 4 \<and>
       (case writeWorker_pass w1 of
          None \<Rightarrow> False
        | Some w2 \<Rightarrow>
            let (r3, w3) = conveyor_write_resume w2 ''ef'' 4
            in r3 = Returned 6 \<and>
               (case writeWorker_pass w3 of
                  None \<Rightarrow> False
                | Some w4 \<Rightarrow>
                    g_mock_storage_data (storage w4) = ''abcdef'' \<and>
                    fst (conveyor_flush w4) = Returned 0)))"
  by code_simp

subsection \<open>Flush and the store\<close>

text \<open>
  Claim C1 (the engine does otherwise). On a write-only engine with a write buffer of
  four bytes over an empty store, \<open>conveyor_write("ab")\<close> returns 2; the write worker
  runs lines 107 to 130, which drain the ring into \<open>temp_flush_buffer\<close> and release
  the mutex; \<open>conveyor_flush\<close>, called now, finds the ring empty and returns 0, while
  the worker has not yet called \<open>ops.write\<close>: the store holds no byte. And when the
  worker has finished its pass but its \<open>ops.write\<close> has failed, \<open>conveyor_flush\<close>
  returns 0 as well, the two bytes being nowhere.
\<close>

theorem flush_returns_before_store_write:
  "(let w0 = created O_WRONLY mock_ops 4 0;
        (r1, w1) = conveyor_write w0 ''ab''
    in r1 = Returned 2 \<and>
       (case writeWorker_locked w1 of
          None \<Rightarrow> False
        | Some w2 \<Rightarrow>
            let (r2, w3) = conveyor_flush w2
            in r2 = Returned 0 \<and>
               g_mock_storage_data (storage w3) = [] \<and>
               map_option write_worker_thread (conv w3) = Some (WW_Store ''ab''))) \<and>
   (let w0 = created O_WRONLY mock_ops_fail 4 0;
        (r1, w1) = conveyor_write w0 ''ab''
    in r1 = Returned 2 \<and>
       (case writeWorker_pass w1 of
          None \<Rightarrow> False
        | Some w2 \<Rightarrow>
            let (r2, w3) = conveyor_flush w2
            in r2 = Returned 0 \<and>
               g_mock_storage_data (storage w3) = [] \<and>
               map_option write_worker_thread (conv w3) = Some WW_Wait \<and>
               map_option (contents \<circ> write_buffer) (conv w3) = Some []))"
  by code_simp

subsection \<open>Seek and pending writes\<close>

text \<open>
  Claim C2 (the engine does otherwise). On a read-write engine over an empty store,
  \<open>conveyor_write("ab")\<close> returns 2 and the ring holds the two bytes;
  \<open>conveyor_lseek(0, SEEK_SET)\<close>, called before the worker has run, returns 0 without
  any flush and leaves the ring empty: the worker has nothing to write, a later
  \<open>conveyor_flush\<close> returns 0, and the two bytes never reach the store.
\<close>

theorem lseek_discards_accepted_bytes:
  "(let w0 = created O_RDWR mock_ops 4 4;
        (r1, w1) = conveyor_write w0 ''ab'';
        (r2, w2) = conveyor_lseek w1 0 SEEK_SET
    in r1 = Returned 2 \<and>
       map_option (contents \<circ> write_buffer) (conv w1) = Some ''ab'' \<and>
       r2 = Returned 0 \<and>
       map_option (contents \<circ> write_buffer) (conv w2) = Some [] \<and>
       map_option write_worker_thread (conv w2) = Some WW_Wait \<and>
       writeWorker_locked w2 = None \<and>
       g_mock_storage_data (storage w2) = [] \<and>
       fst (conveyor_flush w2) = Returned 0 \<and>
       g_mock_storage_data (storage (snd (conveyor_flush w2))) = [])"
  by code_simp

subsection \<open>Reading back what was written\<close>

text \<open>
  Claim C3 (the engine does otherwise). On a read-write engine over an empty store,
  \<open>conveyor_write("ab")\<close> returns 2 and the worker drains the ring, its \<open>ops.write\<close>
  still to come (a slow store). Then \<open>conveyor_lseek(0, SEEK_SET)\<close> returns 0 and
  \<open>conveyor_read(dst, 2)\<close> waits for the read worker, which reads the store, finds
  its end and sets the end-of-file flag: the read returns 0 and \<open>dst\<close> is untouched,
  the two bytes being in \<open>temp_flush_buffer\<close> only. When the seek runs before the
  worker instead, it empties the ring, and the read returns 0 in the same way.
\<close>

theorem read_after_write_returns_nothing:
  "(let w0 = created O_RDWR mock_ops 4 4;
        (r1, w1) = conveyor_write w0 ''ab''
    in r1 = Returned 2 \<and>
       (case writeWorker_locked w1 of
          None \<Rightarrow> False
        | Some w2 \<Rightarrow>
            let (r3, w3) = conveyor_lseek w2 0 SEEK_SET;
                (r4, w4, buf4) = conveyor_read w3 ''..'' 2
            in r3 = Returned 0 \<and> r4 = Waiting_read ''..'' 0 2 \<and>
               (case readWorker_pass w4 of
                  None \<Rightarrow> False
                | Some w5 \<Rightarrow>
                    fst (conveyor_read_resume w5 ''..'' 0 2) = Returned 0 \<and>
                    snd (snd (conveyor_read_resume w5 ''..'' 0 2)) = ''..'' \<and>
                    g_mock_storage_data (storage w5) = [] \<and>
                    map_option write_worker_thread (conv w5) = Some (WW_Store ''ab'')))) \<and>
   (let w0 = created O_RDWR mock_ops 4 4;
        (r1, w1) = conveyor_write w0 ''ab'';
        (r3, w3) = conveyor_lseek w1 0 SEEK_SET;
        (r4, w4, buf4) = conveyor_read w3 ''..'' 2
    in r1 = Returned 2 \<and> r3 = Returned 0 \<and> r4 = Waiting_read ''..'' 0 2 \<and>
       (case readWorker_pass w4 of
          None \<Rightarrow> False
        | Some w5 \<Rightarrow>
            fst (conveyor_read_resume w5 ''..'' 0 2) = Returned 0 \<and>
            snd (snd (conveyor_read_resume w5 ''..'' 0 2)) = ''..'' \<and>
            g_mock_storage_data (storage w5) = []))"
  by code_simp

subsection \<open>A failing store\<close>

text \<open>
  Claim C4 (the engine does otherwise). On a read-write engine whose write callback
  fails, \<open>conveyor_write("a")\<close> returns 1 and the worker's \<open>ops.write\<close> returns
  \<open>-1\<close>: the byte is gone and nothing records the failure. The calls that follow
  do not fail: \<open>conveyor_flush\<close> returns 0, \<open>conveyor_write("b")\<close> returns 1,
  \<open>conveyor_lseek(0, SEEK_SET)\<close> returns 0, \<open>conveyor_read\<close> waits for data, and
  the caller's \<open>errno\<close> stays 0.
\<close>

theorem write_failure_is_not_sticky:
  "(case writeWorker_pass (snd (conveyor_write (created O_RDWR mock_ops_fail 4 4) ''a'')) of
      None \<Rightarrow> False
    | Some w \<Rightarrow>
        g_mock_storage_data (storage w) = [] \<and>
        map_option (contents \<circ> write_buffer) (conv w) = Some [] \<and>
        map_option write_worker_thread (conv w) = Some WW_Wait \<and>
        errno w = 0 \<and> errno w \<noteq> EIO \<and>
        fst (conveyor_flush w) = Returned 0 \<and> errno (snd (conveyor_flush w)) = 0 \<and>
        fst (conveyor_write w ''b'') = Returned 1 \<and> errno (snd (conveyor_write w ''b'')) = 0 \<and>
        fst (conveyor_lseek w 0 SEEK_SET) = Returned 0 \<and>
        errno (snd (conveyor_lseek w 0 SEEK_SET)) = 0 \<and>
        fst (conveyor_read w ''.'' 1) = Waiting_read ''.'' 0 1 \<and>
        errno (fst (snd (conveyor_read w ''.'' 1))) = 0)"
  by code_simp

subsection \<open>Which directions are enabled\<close>

text \<open>
  What \<open>conveyor_create\<close> computes (lines 210 to 222): the write direction is enabled
  exactly when the access mode \<open>flags & O_ACCMODE\<close> is \<open>O_WRONLY\<close> or \<open>O_RDWR\<close>, and
  the read direction exactly when it is \<open>O_RDONLY\<close> or \<open>O_RDWR\<close>; the two capacities
  size the rings and decide nothing else.
\<close>

lemma conveyor_create_access_mode:
  "write_buffer_enabled (conveyor_create h f p write_buffer_size read_buffer_size)
     = (f AND O_ACCMODE = O_WRONLY \<or> f AND O_ACCMODE = O_RDWR) \<and>
   read_buffer_enabled (conveyor_create h f p write_buffer_size read_buffer_size)
     = (f AND O_ACCMODE = O_RDONLY \<or> f AND O_ACCMODE = O_RDWR) \<and>
   capacity (write_buffer (conveyor_create h f p write_buffer_size read_buffer_size))
     = write_buffer_size \<and>
   capacity (read_buffer (conveyor_create h f p write_buffer_size read_buffer_size))
     = read_buffer_size"
  by (simp add: conveyor_create_def Let_def RingBuffer_init_def)

text \<open>
  Claim C5 (the engine does otherwise). Created with the flags \<open>O_RDWR\<close>, an engine
  with a read capacity of zero has its read direction enabled, and an engine with a
  write capacity of zero has its write direction enabled. Neither direction can work:
  \<open>conveyor_read(dst, 1)\<close> waits for the read worker, whose pass finds no space in the
  ring, calls the store not at all and goes back to its wait, where nothing wakes it;
  the reader, woken up, waits again. \<open>conveyor_write("a")\<close> waits for space in a ring
  that has none, with the write worker idle; woken up, it waits again.
\<close>

theorem zero_capacity_direction_enabled:
  "(let w0 = created O_RDWR mock_ops 4 0;
        (r1, w1, buf1) = conveyor_read w0 ''.'' 1
    in map_option read_buffer_enabled (conv w0) = Some True \<and>
       map_option (capacity \<circ> read_buffer) (conv w0) = Some 0 \<and>
       r1 = Waiting_read ''.'' 0 1 \<and>
       (case readWorker_locked w1 of
          None \<Rightarrow> False
        | Some w2 \<Rightarrow>
            map_option read_worker_thread (conv w2) = Some RW_Wait \<and>
            g_mock_storage_pos (storage w2) = 0 \<and>
            readWorker_locked w2 = None \<and>
            fst (conveyor_read_resume w2 ''.'' 0 1) = Waiting_read ''.'' 0 1)) \<and>
   (let w0 = created O_RDWR mock_ops 0 4;
        (r1, w1) = conveyor_write w0 ''a''
    in map_option write_buffer_enabled (conv w0) = Some True \<and>
       map_option (capacity \<circ> write_buffer) (conv w0) = Some 0 \<and>
       r1 = Waiting_write ''a'' 0 \<and>
       writeWorker_locked w1 = None \<and>
       fst (conveyor_write_resume w1 ''a'' 0) = Waiting_write ''a'' 0)"
  by code_simp

subsection \<open>The rings of an engine\<close>

text \<open>
  A ring of an engine satisfies the invariant of the data model, or it has the capacity
  zero and holds nothing.
\<close>

lemma conveyor_read_rb:
  "fst (conveyor_RingBuffer_read rb dst len) = fst (RingBuffer_read rb (Some dst) len)"
  by (auto simp: conveyor_RingBuffer_read_def RingBuffer_read_def Let_def)

lemma engine_rb_reachable_inv:
  "engine_rb_reachable rb \<Longrightarrow> rb_inv rb \<or> (capacity rb = 0 \<and> size_rb rb = 0)"
proof (induction rule: engine_rb_reachable.induct)
  case (engine_init cap)
  show ?case
  proof (cases "cap = 0")
    case True
    then show ?thesis by (simp add: RingBuffer_init_def)
  next
    case False
    then show ?thesis using init_inv[of cap] by simp
  qed
next
  case (engine_write rb data)
  from engine_write.IH show ?case
  proof
    assume "rb_inv rb"
    then show ?thesis using write_inv by blast
  next
    assume z: "capacity rb = 0 \<and> size_rb rb = 0"
    then have "min (length data) (capacity rb - size_rb rb) = 0" by simp
    then have "fst (RingBuffer_write rb data) = rb" by (rule write_same)
    then show ?thesis using z by simp
  qed
next
  case (engine_read rb dst len)
  from engine_read.IH show ?case
  proof
    assume "rb_inv rb"
    then show ?thesis using read_inv[of rb "Some dst" len] by (simp add: conveyor_read_rb)
  next
    assume z: "capacity rb = 0 \<and> size_rb rb = 0"
    then have "fst (RingBuffer_read rb (Some dst) len) = rb" by (simp add: read_rb)
    then show ?thesis using z by (simp add: conveyor_read_rb)
  qed
next
  case (engine_clear rb)
  from engine_clear.IH show ?case
  proof
    assume "rb_inv rb"
    then show ?thesis using clear_inv by blast
  next
    assume "capacity rb = 0 \<and> size_rb rb = 0"
    then show ?thesis by (simp add: RingBuffer_clear_def)
  qed
qed

lemma create_rings_reachable:
  "engine_rb_reachable (write_buffer (conveyor_create h f p write_buffer_size read_buffer_size)) \<and>
   engine_rb_reachable (read_buffer (conveyor_create h f p write_buffer_size read_buffer_size))"
  by (simp add: conveyor_create_def Let_def engine_rb_reachable.engine_init)

subsection \<open>A write longer than the write buffer\<close>








subsection \<open>A failing seek\<close>

text \<open>
  Claim C9, as stated, fails: when the seek callback returns \<open>-22\<close>, a negative value
  other than \<open>LIBCONVEYOR_ERROR\<close>, \<open>conveyor_lseek\<close> returns \<open>-22\<close> and changes the
  engine: the logical offset becomes \<open>-22\<close> and the read buffer is marked stale.
\<close>

theorem lseek_negative_counterexample:
  "fst (ops_lseek mock_ops_einval mock_empty 1 (- 5) SEEK_SET) = - 22 \<and>
   fst (conveyor_lseek (created O_RDWR mock_ops_einval 4 4) (- 5) SEEK_SET) = Returned (- 22) \<and>
   map_option current_file_offset (conv (created O_RDWR mock_ops_einval 4 4)) = Some 0 \<and>
   map_option current_file_offset
     (conv (snd (conveyor_lseek (created O_RDWR mock_ops_einval 4 4) (- 5) SEEK_SET)))
     = Some (- 22) \<and>
   map_option read_buffer_stale (conv (created O_RDWR mock_ops_einval 4 4)) = Some False \<and>
   map_option read_buffer_stale
     (conv (snd (conveyor_lseek (created O_RDWR mock_ops_einval 4 4) (- 5) SEEK_SET)))
     = Some True"
  by code_simp

text \<open>
  Claim C9, amended. Whenever the seek callback returns \<open>LIBCONVEYOR_ERROR\<close>, that is
  \<open>-1\<close>, \<open>conveyor_lseek\<close> returns \<open>-1\<close> and leaves the whole engine as it was:
  both ring buffers, the stale and end-of-file flags, the logical offset and the
  storage position; the caller's \<open>errno\<close> is not touched either, and the store is as
  the callback left it.
\<close>

theorem lseek_error_leaves_engine:
  assumes "conv w = Some c"
    "fst (ops_lseek (ops c) (storage w) (handle c) offset whence) = LIBCONVEYOR_ERROR"
  shows "fst (conveyor_lseek w offset whence) = Returned LIBCONVEYOR_ERROR \<and>
         conv (snd (conveyor_lseek w offset whence)) = conv w \<and>
         errno (snd (conveyor_lseek w offset whence)) = errno w \<and>
         storage (snd (conveyor_lseek w offset whence))
           = snd (ops_lseek (ops c) (storage w) (handle c) offset whence)"
  using assms by (simp add: conveyor_lseek_def Let_def)

theorem lseek_error_leaves_engine_witness:
  "conv (created O_RDWR mock_ops 4 4) = Some (conveyor_create 1 O_RDWR mock_ops 4 4) \<and>
   fst (ops_lseek (ops (conveyor_create 1 O_RDWR mock_ops 4 4))
          (storage (created O_RDWR mock_ops 4 4))
          (handle (conveyor_create 1 O_RDWR mock_ops 4 4)) (- 5) SEEK_SET) = LIBCONVEYOR_ERROR \<and>
   fst (conveyor_lseek (created O_RDWR mock_ops 4 4) (- 5) SEEK_SET) = Returned LIBCONVEYOR_ERROR \<and>
   conv (snd (conveyor_lseek (created O_RDWR mock_ops 4 4) (- 5) SEEK_SET))
     = conv (created O_RDWR mock_ops 4 4) \<and>
   errno (snd (conveyor_lseek (created O_RDWR mock_ops 4 4) (- 5) SEEK_SET))
     = errno (created O_RDWR mock_ops 4 4)"
proof -
  have h1: "conv (created O_RDWR mock_ops 4 4) = Some (conveyor_create 1 O_RDWR mock_ops 4 4)"
    by (simp add: created_def)
  have h2: "fst (ops_lseek (ops (conveyor_create 1 O_RDWR mock_ops 4 4))
          (storage (created O_RDWR mock_ops 4 4))
          (handle (conveyor_create 1 O_RDWR mock_ops 4 4)) (- 5) SEEK_SET) = LIBCONVEYOR_ERROR"
    by code_simp
  show ?thesis
    using h1 h2 lseek_error_leaves_engine[OF h1 h2]
    by blast
qed

end
